theory Spec2Isabelle
  imports Complex_Main "HOL-Library.Multiset"
begin

section \<open>JavaScript numbers and values\<close>

text \<open>
  A JavaScript number is a double: a finite value, one of the two infinities, or NaN.
  Every finite double is a rational, so finite values are modelled as \<open>rat\<close>; the
  counters of the program stay far below \<open>2^53\<close>, where double arithmetic on integers
  is exact.
\<close>

datatype jsnum = Fin rat | PInf | NInf | NaN

text \<open>The relational operator \<open>a < b\<close> on numbers; every comparison with NaN is false.\<close>

fun num_lt :: "jsnum \<Rightarrow> jsnum \<Rightarrow> bool" where
  "num_lt (Fin a) (Fin b) = (a < b)"
| "num_lt (Fin a) PInf = True"
| "num_lt NInf (Fin b) = True"
| "num_lt NInf PInf = True"
| "num_lt _ _ = False"

text \<open>\<open>a > b\<close> is \<open>b < a\<close>.\<close>

definition num_gt :: "jsnum \<Rightarrow> jsnum \<Rightarrow> bool" where
  "num_gt a b = num_lt b a"

text \<open>\<open>Number.isInteger\<close> on a number: finite and without fractional part.\<close>

fun isInteger :: "jsnum \<Rightarrow> bool" where
  "isInteger (Fin q) = (q = of_int \<lfloor>q\<rfloor>)"
| "isInteger _ = False"

text \<open>Truthiness of a number: \<open>0\<close> and NaN are falsy, everything else is truthy.\<close>

fun truthy_num :: "jsnum \<Rightarrow> bool" where
  "truthy_num (Fin q) = (q \<noteq> 0)"
| "truthy_num NaN = False"
| "truthy_num _ = True"

text \<open>The values a caller can pass where a number is expected.\<close>

datatype jsval = JNumber jsnum | JUndefined | JNull | JBoolean bool

fun ToNumber :: "jsval \<Rightarrow> jsnum" where
  "ToNumber (JNumber n) = n"
| "ToNumber JUndefined = NaN"
| "ToNumber JNull = Fin 0"
| "ToNumber (JBoolean b) = (if b then Fin 1 else Fin 0)"

text \<open>\<open>Number.isInteger\<close> on any value: false unless the value has type number.\<close>

fun Number_isInteger :: "jsval \<Rightarrow> bool" where
  "Number_isInteger (JNumber n) = isInteger n"
| "Number_isInteger _ = False"

datatype js_error = TypeError string | Error string

section \<open>The concurrency limiter (\<open>z\<close> in the bundled handler)\<close>

text \<open>
  The limiter closes over a FIFO queue \<open>e\<close> of bound run functions and a counter \<open>t\<close>.
  The model names a submitted operation by its submission number (the number of earlier
  calls of the generator \<open>u\<close>), keeps \<open>e\<close> as the list \<open>queue\<close> and \<open>t\<close> as
  \<open>activeCount\<close>, and makes the event loop explicit:
  \<^item> \<open>ticks\<close> counts the admission microtasks that \<open>i\<close> has scheduled
    (\<open>await Promise.resolve()\<close>) and that have not run yet;
  \<^item> \<open>inflight\<close> holds the operations whose promise \<open>m\<close> is pending;
  \<^item> \<open>awaiting\<close> holds the operations whose promise \<open>m\<close> has settled while the rest of
    \<open>s\<close> after \<open>await m\<close> has not run yet;
  \<^item> \<open>admitted\<close> records the order in which operations were started;
  \<^item> \<open>futures\<close> records, in the order of settlement, the outcome delivered to the promise
    that \<open>u\<close> returned for an operation.
\<close>

record 'r limiter =
  concurrency :: jsval
  queue :: "nat list"
  activeCount :: int
  runCalls :: nat
  ticks :: nat
  inflight :: "nat list"
  awaiting :: "nat list"
  admitted :: "nat list"
  futures :: "(nat \<times> 'r) list"

text \<open>
  \<open>z = r => { if (!((Number.isInteger(r) || r === 1/0) && r > 0)) throw new TypeError(...);
  let e = new k, t = 0, ...; return u }\<close>
\<close>

definition z :: "jsval \<Rightarrow> js_error + 'r limiter" where
  "z r =
     (if \<not> ((Number_isInteger r \<or> r = JNumber PInf) \<and> num_gt (ToNumber r) (Fin 0))
      then Inl (TypeError ''Expected `concurrency` to be a number from 1 and up'')
      else Inr \<lparr>concurrency = r, queue = [], activeCount = 0, runCalls = 0, ticks = 0,
                inflight = [], awaiting = [], admitted = [], futures = []\<rparr>)"

text \<open>
  \<open>s = async (n, c, ...a) => { t++; let m = (async () => n(...a))(); c(m);
  try { await m } catch {} o() }\<close>, up to the \<open>await\<close>: the counter goes up and the
  operation is called, so it is in flight.
\<close>

definition run_start :: "nat \<Rightarrow> 'r limiter \<Rightarrow> 'r limiter" where
  "run_start j l =
     l\<lparr>activeCount := activeCount l + 1, inflight := inflight l @ [j],
       admitted := admitted l @ [j]\<rparr>"

text \<open>\<open>e.size > 0 && e.dequeue()()\<close>: the head of the queue, if any, is removed and started.\<close>

definition dequeue_run :: "'r limiter \<Rightarrow> 'r limiter" where
  "dequeue_run l = (case queue l of [] \<Rightarrow> l | j # q \<Rightarrow> run_start j (l\<lparr>queue := q\<rparr>))"

text \<open>\<open>o = () => { t--, e.size > 0 && e.dequeue()() }\<close>\<close>

definition decrement :: "'r limiter \<Rightarrow> 'r limiter" where
  "decrement l = l\<lparr>activeCount := activeCount l - 1\<rparr>"

definition next_queued :: "'r limiter \<Rightarrow> 'r limiter" where
  "next_queued l = dequeue_run (decrement l)"

text \<open>
  \<open>u = (n, ...c) => new Promise(a => { i(n, a, ...c) })\<close> with
  \<open>i = (n, c, ...a) => { e.enqueue(s.bind(null, n, c, ...a)),
  (async () => (await Promise.resolve(), t < r && e.size > 0 && e.dequeue()()))() }\<close>:
  the synchronous part enqueues the operation and schedules one admission microtask.
\<close>

definition generator :: "'r limiter \<Rightarrow> 'r limiter" where
  "generator l =
     l\<lparr>queue := queue l @ [runCalls l], runCalls := Suc (runCalls l), ticks := Suc (ticks l)\<rparr>"

text \<open>The body of the admission microtask: \<open>t < r && e.size > 0 && e.dequeue()()\<close>.\<close>

definition admit :: "'r limiter \<Rightarrow> 'r limiter" where
  "admit l =
     (if num_lt (Fin (of_int (activeCount l))) (ToNumber (concurrency l)) \<and> length (queue l) > 0
      then dequeue_run l else l)"

text \<open>
  The events of the event loop, as far as the limiter is concerned:
  a call of the generator, an admission microtask, the settlement of an operation's
  promise with an outcome, the resumption of \<open>s\<close> after \<open>await m\<close>, and \<open>clearQueue\<close>.
  An event that cannot happen in a state (no microtask scheduled, the operation not in
  flight) gives \<open>None\<close>.
\<close>

datatype 'r levent = Submit | Tick | Settle nat 'r | Continue nat | ClearQueue

fun lstep :: "'r levent \<Rightarrow> 'r limiter \<Rightarrow> 'r limiter option" where
  "lstep Submit l = Some (generator l)"
| "lstep Tick l = (if ticks l = 0 then None else Some (admit (l\<lparr>ticks := ticks l - 1\<rparr>)))"
| "lstep (Settle j r) l =
     (if j \<in> set (inflight l)
      then Some (l\<lparr>inflight := remove1 j (inflight l), awaiting := awaiting l @ [j],
                   futures := futures l @ [(j, r)]\<rparr>)
      else None)"
| "lstep (Continue j) l =
     (if j \<in> set (awaiting l)
      then Some (next_queued (l\<lparr>awaiting := remove1 j (awaiting l)\<rparr>))
      else None)"
| "lstep ClearQueue l = Some (l\<lparr>queue := []\<rparr>)"

fun lrun :: "'r levent list \<Rightarrow> 'r limiter \<Rightarrow> 'r limiter option" where
  "lrun [] l = Some l"
| "lrun (ev # evs) l = (case lstep ev l of None \<Rightarrow> None | Some l' \<Rightarrow> lrun evs l')"

section \<open>The cross-region import reader handler (\<open>M\<close> in the bundled handler)\<close>

text \<open>
  An object with string keys is an association list in the order of \<open>Object.keys\<close>.
  The request carries \<open>ResourceProperties.ReaderProps\<close> and, on an update,
  \<open>OldResourceProperties.ReaderProps\<close>.
\<close>

type_synonym import_set = "(string \<times> string) list"

definition Object_keys :: "import_set \<Rightarrow> string list" where
  "Object_keys t = map fst t"

record ReaderProps =
  imports_map :: import_set
  prefix :: string
  region :: string

datatype RequestType = Create | Update | Delete

record request =
  RequestType :: RequestType
  ResourceProperties :: ReaderProps
  OldResourceProperties :: "ReaderProps option"

record response =
  Data :: import_set

text \<open>\<open>function P(r, e) { return r.filter(t => !e.includes(t)) }\<close>\<close>

definition P :: "string list \<Rightarrow> string list \<Rightarrow> string list" where
  "P r e = filter (\<lambda>t. t \<notin> set e) r"

text \<open>
  The remote API: \<open>addTagsToResource\<close> and \<open>removeTagsFromResource\<close>, each called with a
  \<open>ResourceId\<close> and the tag key. A call either returns or throws a value \<open>i\<close>, of which
  the handler reads \<open>i.name\<close> and the string conversion \<open>`${i}`\<close>: the two arguments
  of \<open>Thrown\<close>, in this order.
\<close>

datatype api = addTagsToResource | removeTagsFromResource

datatype reply = Returned | Thrown string string

datatype wire = Call api string string | Reply api string reply

text \<open>The outcome of the promise of one submitted operation.\<close>

datatype settled = Fulfilled | Rejected js_error

text \<open>
  The operation that \<open>w\<close> submits for a reference \<open>s\<close>:
  \<open>try { return await r.addTagsToResource(...) }
  catch (i) { throw new Error(`Error importing ${s}: ${i}`) }\<close>
\<close>

fun tag_outcome :: "string \<Rightarrow> reply \<Rightarrow> settled" where
  "tag_outcome s Returned = Fulfilled"
| "tag_outcome s (Thrown n txt) = Rejected (Error (''Error importing '' @ s @ '': '' @ txt))"

text \<open>
  The operation that \<open>x\<close> submits for a reference \<open>s\<close>:
  \<open>try { return await r.removeTagsFromResource(...) }
  catch (i) { if (i.name === "InvalidResourceId") return;
  throw new Error(`Error releasing import ${s}: ${i}`) }\<close>
\<close>

fun untag_outcome :: "string \<Rightarrow> reply \<Rightarrow> settled" where
  "untag_outcome s Returned = Fulfilled"
| "untag_outcome s (Thrown n txt) =
     (if n = ''InvalidResourceId'' then Fulfilled
      else Rejected (Error (''Error releasing import '' @ s @ '': '' @ txt)))"

fun outcome_of :: "api \<Rightarrow> string \<Rightarrow> reply \<Rightarrow> settled" where
  "outcome_of addTagsToResource = tag_outcome"
| "outcome_of removeTagsFromResource = untag_outcome"

text \<open>
  \<open>Promise.all\<close> over the promises of one fan-out: rejected with the reason of the first
  promise that rejects, fulfilled once all \<open>n\<close> promises are fulfilled, pending otherwise.
\<close>

datatype all_state = AllPending | AllFulfilled | AllRejected js_error

fun first_rejection :: "(nat \<times> settled) list \<Rightarrow> js_error option" where
  "first_rejection [] = None"
| "first_rejection ((j, Fulfilled) # fs) = first_rejection fs"
| "first_rejection ((j, Rejected e) # fs) = Some e"

definition Promise_all :: "nat \<Rightarrow> settled limiter \<Rightarrow> all_state" where
  "Promise_all n l =
     (case first_rejection (futures l) of
        Some e \<Rightarrow> AllRejected e
      | None \<Rightarrow> if length (futures l) = n then AllFulfilled else AllPending)"

text \<open>
  The state of one invocation: the promise of the handler (\<open>None\<close> while it is pending,
  \<open>Inl\<close> a rejection, \<open>Inr\<close> the returned value, where \<open>undefined\<close> is \<open>None\<close>), the
  fan-out that is under way (which API, the references passed to \<open>w\<close> or \<open>x\<close>, and the
  limiter that this fan-out created), and the calls and replies seen on the wire so far,
  oldest first.
\<close>

record invocation =
  result :: "(js_error + response option) option"
  fanout :: "(api \<times> string list \<times> settled limiter) option"
  wire :: "wire list"

text \<open>
  \<open>w\<close> and \<open>x\<close> up to their \<open>await\<close>: \<open>let o = S(10)\<close>, then \<open>e.map(s => o(...))\<close> calls
  the generator once per reference.
\<close>

definition fan_out :: "api \<Rightarrow> string list \<Rightarrow> wire list \<Rightarrow> invocation" where
  "fan_out a e tr =
     (case z (JNumber (Fin 10)) of
        Inl err \<Rightarrow> \<lparr>result = Some (Inl err), fanout = None, wire = tr\<rparr>
      | Inr l0 \<Rightarrow>
          \<lparr>result = None, fanout = Some (a, e, fold (\<lambda>s. generator) e l0), wire = tr\<rparr>)"

definition w :: "string list \<Rightarrow> wire list \<Rightarrow> invocation" where
  "w e tr = fan_out addTagsToResource e tr"

definition x :: "string list \<Rightarrow> wire list \<Rightarrow> invocation" where
  "x e tr = fan_out removeTagsFromResource e tr"

definition tag_key :: "request \<Rightarrow> string" where
  "tag_key r = ''aws-cdk:strong-ref:'' @ prefix (ResourceProperties r)"

text \<open>
  \<open>M\<close> up to its first \<open>await\<close>. On an update, reading \<open>OldResourceProperties\<close> of a
  request that has none throws a TypeError inside the \<open>try\<close>, which is thrown again.
\<close>

definition M :: "request \<Rightarrow> invocation" where
  "M r =
     (let t = imports_map (ResourceProperties r); ks = Object_keys t in
      case RequestType r of
        Create \<Rightarrow> w ks []
      | Update \<Rightarrow>
          (case OldResourceProperties r of
             None \<Rightarrow> \<lparr>result = Some (Inl (TypeError ''Cannot read properties of undefined'')),
                       fanout = None, wire = []\<rparr>
           | Some old \<Rightarrow>
               (let n = imports_map old; c = P ks (Object_keys n); a = P (Object_keys n) ks in
                if length a > 0 then x a [] else w c []))
      | Delete \<Rightarrow> x ks [])"

text \<open>
  \<open>M\<close> after a fan-out has been fulfilled: after \<open>x\<close> an update goes on to
  \<open>await w(i, c, s)\<close> and a delete returns (only these two request types call \<open>x\<close>);
  after \<open>w\<close> the \<open>switch\<close> is left and \<open>{Data: t}\<close> is returned. When \<open>w\<close> follows
  \<open>x\<close>, the state keeps the limiter of \<open>w\<close> only: every operation of the limiter of
  \<open>x\<close> has been started and has settled by then, so that limiter makes no further call.
\<close>

definition M_resume :: "request \<Rightarrow> api \<Rightarrow> invocation \<Rightarrow> invocation" where
  "M_resume r a st =
     (let t = imports_map (ResourceProperties r); ks = Object_keys t in
      case a of
        addTagsToResource \<Rightarrow> st\<lparr>result := Some (Inr (Some \<lparr>Data = t\<rparr>))\<rparr>
      | removeTagsFromResource \<Rightarrow>
          (case RequestType r of
             Delete \<Rightarrow> st\<lparr>result := Some (Inr None)\<rparr>
           | _ \<Rightarrow>
               (case OldResourceProperties r of
                  None \<Rightarrow> st\<lparr>result := Some (Inl (TypeError ''Cannot read properties of undefined''))\<rparr>
                | Some old \<Rightarrow> w (P ks (Object_keys (imports_map old))) (wire st))))"

text \<open>
  The events of an invocation: an admission microtask of the current limiter, the reply of
  the remote API to the call of operation \<open>j\<close>, the resumption of \<open>s\<close> for operation \<open>j\<close>,
  and the resumption of the handler once \<open>Promise.all\<close> has settled. A step of the limiter
  that starts operations puts their calls on the wire. The operations of a fan-out over the
  references \<open>e\<close> are numbered from 0 in the order of \<open>e.map\<close>, so operation \<open>j\<close> is the
  closure over the reference \<open>e ! j\<close>; the limiter of a fan-out only ever holds numbers
  below \<open>length e\<close> (lemma \<open>job_inv_bounds\<close>). After the handler has rejected, the limiter
  of the fan-out goes on: the operations in flight are not cancelled and the queued ones
  are still started.
\<close>

datatype hevent = HTick | HReply nat reply | HContinue nat | HResume

definition new_calls :: "api \<Rightarrow> string list \<Rightarrow> string \<Rightarrow> settled limiter \<Rightarrow> settled limiter \<Rightarrow> wire list" where
  "new_calls a e k l l' = map (\<lambda>j. Call a (e ! j) k) (drop (length (admitted l)) (admitted l'))"

fun hstep :: "request \<Rightarrow> hevent \<Rightarrow> invocation \<Rightarrow> invocation option" where
  "hstep r ev st =
     (case fanout st of
        None \<Rightarrow> None
      | Some (a, e, l) \<Rightarrow>
          (case ev of
             HTick \<Rightarrow>
               (case lstep Tick l of
                  None \<Rightarrow> None
                | Some l' \<Rightarrow>
                    Some (st\<lparr>fanout := Some (a, e, l'),
                             wire := wire st @ new_calls a e (tag_key r) l l'\<rparr>))
           | HReply j rep \<Rightarrow>
               (if j < length e then
                  (case lstep (Settle j (outcome_of a (e ! j) rep)) l of
                     None \<Rightarrow> None
                   | Some l' \<Rightarrow>
                       Some (st\<lparr>fanout := Some (a, e, l'),
                                wire := wire st @ [Reply a (e ! j) rep]\<rparr>))
                else None)
           | HContinue j \<Rightarrow>
               (case lstep (Continue j) l of
                  None \<Rightarrow> None
                | Some l' \<Rightarrow>
                    Some (st\<lparr>fanout := Some (a, e, l'),
                             wire := wire st @ new_calls a e (tag_key r) l l'\<rparr>))
           | HResume \<Rightarrow>
               (if result st \<noteq> None then None
                else
                  (case Promise_all (length e) l of
                     AllPending \<Rightarrow> None
                   | AllRejected err \<Rightarrow> Some (st\<lparr>result := Some (Inl err)\<rparr>)
                   | AllFulfilled \<Rightarrow> Some (M_resume r a st)))))"

fun hrun :: "request \<Rightarrow> hevent list \<Rightarrow> invocation \<Rightarrow> invocation option" where
  "hrun r [] st = Some st"
| "hrun r (ev # evs) st = (case hstep r ev st of None \<Rightarrow> None | Some st' \<Rightarrow> hrun r evs st')"

section \<open>The constructor of \<open>GlueStartJobRun\<close>\<close>

datatype IntegrationPattern = REQUEST_RESPONSE | RUN_JOB | WAIT_FOR_TASK_TOKEN

text \<open>
  The properties that the constructor reads. \<open>undefined\<close> is \<open>None\<close>; the remaining
  properties (\<open>arguments\<close>, \<open>securityConfiguration\<close>, \<open>notifyDelayAfter\<close>, \<open>workerType\<close>)
  are read by \<open>_renderTask\<close> only.
\<close>

record GlueStartJobRunProps =
  glueJobName :: string
  integrationPattern :: "IntegrationPattern option"
  numberOfWorkers :: "jsnum option"


text \<open>
  Modelled from the spec: \<open>validatePatternSupported\<close> of \<open>private/task-utils\<close> is not among
  the sources and the specification does not describe it. The model follows its call site
  and the unit test \<open>Task throws if WAIT_FOR_TASK_TOKEN is supplied as service integration
  pattern\<close>, which expects an error matching \<open>unsupported service integration pattern\<close>:
  the function throws unless the pattern is one of the supported ones.
\<close>

definition validatePatternSupported :: "IntegrationPattern \<Rightarrow> IntegrationPattern list \<Rightarrow> js_error option" where
  "validatePatternSupported p supported =
     (if p \<in> set supported then None
      else Some (Error ''Unsupported service integration pattern''))"

definition numberOfWorkers_error :: js_error where
  "numberOfWorkers_error = Error ''`numberOfWorkers` must be an integer greater than 0''"


section \<open>The constructor of \<open>RecordSet\<close>\<close>

text \<open>
  The properties that the validations at the head of the constructor read. The types of
  \<open>geoLocation\<close>, \<open>cidrRoutingConfig\<close> and \<open>target.aliasTarget\<close> are objects, which are
  truthy whenever they are defined; the validations do not look inside them.
\<close>

record 'alias RecordTarget =
  target_values :: "string list option"
  aliasTarget :: "'alias option"

record ('geo, 'cidr, 'alias) RecordSetProps =
  target :: "'alias RecordTarget"
  weight :: "jsnum option"
  setIdentifier :: "string option"
  geoLocation :: "'geo option"
  region :: "string option"
  multiValueAnswer :: "bool option"
  cidrRoutingConfig :: "'cidr option"

text \<open>Truthiness of optional properties: \<open>undefined\<close>, \<open>0\<close>, NaN, \<open>''\<close> and \<open>false\<close> are falsy.\<close>

definition truthy_string :: "string option \<Rightarrow> bool" where
  "truthy_string v = (case v of None \<Rightarrow> False | Some s \<Rightarrow> s \<noteq> [])"

definition truthy_boolean :: "bool option \<Rightarrow> bool" where
  "truthy_boolean v = (case v of None \<Rightarrow> False | Some b \<Rightarrow> b)"

definition truthy_object :: "'a option \<Rightarrow> bool" where
  "truthy_object v = (v \<noteq> None)"

text \<open>
  The errors of the constructor, one per \<open>throw\<close>, in the order of the source:
  \<^item> \<open>SuperError\<close>: thrown by the constructor of the base class \<open>Resource\<close>;
  \<^item> \<open>WeightOutOfRange w\<close>: \<open>weight must be between 0 and 255 inclusive, got: w\<close>;
  \<^item> \<open>SetIdentifierLength n\<close>: \<open>setIdentifier must be between 1 and 128 characters long, got: n\<close>;
  \<^item> \<open>SetIdentifierSimpleRouting\<close>: \<open>setIdentifier can only be specified for non-simple routing policies\<close>;
  \<^item> \<open>MultiValueAnswerAlias\<close>: \<open>multiValueAnswer cannot be specified for alias record\<close>;
  \<^item> \<open>OnlyOneRoutingPolicy\<close>: \<open>Only one of region, weight, multiValueAnswer,
    cidrRoutingConfig or geoLocation can be defined\<close>.
\<close>

datatype RecordSetError =
    SuperError js_error
  | WeightOutOfRange jsnum
  | SetIdentifierLength nat
  | SetIdentifierSimpleRouting
  | MultiValueAnswerAlias
  | OnlyOneRoutingPolicy

text \<open>
  \<open>[props.geoLocation, props.region, props.weight, props.multiValueAnswer,
  props.cidrRoutingConfig].filter((variable) => variable !== undefined).length\<close>
\<close>

definition nonSimpleRoutingPolicies :: "('geo, 'cidr, 'alias) RecordSetProps \<Rightarrow> nat" where
  "nonSimpleRoutingPolicies props =
     length (filter (\<lambda>defined. defined)
       [geoLocation props \<noteq> None, region props \<noteq> None, weight props \<noteq> None,
        multiValueAnswer props \<noteq> None, cidrRoutingConfig props \<noteq> None])"

text \<open>
  The validations at the head of the constructor, one per \<open>if\<close>, each giving the error it
  throws:
  \<open>if (props.weight && (props.weight < 0 || props.weight > 255)) throw ...\<close>
\<close>

definition check_weight :: "('geo, 'cidr, 'alias) RecordSetProps \<Rightarrow> RecordSetError option" where
  "check_weight props =
     (case weight props of
        None \<Rightarrow> None
      | Some n \<Rightarrow>
          if truthy_num n \<and> (num_lt n (Fin 0) \<or> num_gt n (Fin 255))
          then Some (WeightOutOfRange n) else None)"

text \<open>
  \<open>if (props.setIdentifier && (props.setIdentifier.length < 1 ||
  props.setIdentifier.length > 128)) throw ...\<close>
\<close>

definition check_setIdentifier_length :: "('geo, 'cidr, 'alias) RecordSetProps \<Rightarrow> RecordSetError option" where
  "check_setIdentifier_length props =
     (case setIdentifier props of
        None \<Rightarrow> None
      | Some s \<Rightarrow>
          if s \<noteq> [] \<and> (length s < 1 \<or> length s > 128)
          then Some (SetIdentifierLength (length s)) else None)"

text \<open>
  \<open>if (props.setIdentifier && props.weight === undefined && !props.geoLocation &&
  !props.region && !props.multiValueAnswer && !props.cidrRoutingConfig) throw ...\<close>
\<close>

definition check_setIdentifier_routing :: "('geo, 'cidr, 'alias) RecordSetProps \<Rightarrow> RecordSetError option" where
  "check_setIdentifier_routing props =
     (if truthy_string (setIdentifier props)
         \<and> weight props = None
         \<and> \<not> truthy_object (geoLocation props)
         \<and> \<not> truthy_string (region props)
         \<and> \<not> truthy_boolean (multiValueAnswer props)
         \<and> \<not> truthy_object (cidrRoutingConfig props)
      then Some SetIdentifierSimpleRouting else None)"

text \<open>\<open>if (props.multiValueAnswer && props.target.aliasTarget) throw ...\<close>\<close>

definition check_multiValueAnswer :: "('geo, 'cidr, 'alias) RecordSetProps \<Rightarrow> RecordSetError option" where
  "check_multiValueAnswer props =
     (if truthy_boolean (multiValueAnswer props) \<and> truthy_object (aliasTarget (target props))
      then Some MultiValueAnswerAlias else None)"

text \<open>
  The constructor from its start to the check of the routing policies, which is the only
  place that throws \<open>OnlyOneRoutingPolicy\<close>; \<open>Inr ()\<close> says that the constructor goes on
  past that check. \<open>super\<close> is the outcome of the constructor of the base class, which is
  outside the sources.
\<close>

definition RecordSet_constructor ::
  "js_error option \<Rightarrow> ('geo, 'cidr, 'alias) RecordSetProps \<Rightarrow> RecordSetError + unit" where
  "RecordSet_constructor super props =
     (case super of
        Some e \<Rightarrow> Inl (SuperError e)
      | None \<Rightarrow>
     (case check_weight props of
        Some e \<Rightarrow> Inl e
      | None \<Rightarrow>
     (case check_setIdentifier_length props of
        Some e \<Rightarrow> Inl e
      | None \<Rightarrow>
     (case check_setIdentifier_routing props of
        Some e \<Rightarrow> Inl e
      | None \<Rightarrow>
     (case check_multiValueAnswer props of
        Some e \<Rightarrow> Inl e
      | None \<Rightarrow>
          if nonSimpleRoutingPolicies props > 1 then Inl OnlyOneRoutingPolicy else Inr ())))))"

section \<open>Invariants of the limiter\<close>

text \<open>The values that the check of \<open>z\<close> accepts: \<open>Infinity\<close> and the positive integers.\<close>

definition valid_limit :: "jsval \<Rightarrow> bool" where
  "valid_limit r = (r = JNumber PInf \<or> (\<exists>k::int. 0 < k \<and> r = JNumber (Fin (of_int k))))"

text \<open>
  The counter is the number of operations that have been started and whose run function
  \<open>s\<close> has not reached \<open>o()\<close> yet, and it does not exceed the limit.
\<close>

definition linv :: "'r limiter \<Rightarrow> bool" where
  "linv l = (valid_limit (concurrency l)
     \<and> activeCount l = int (length (inflight l)) + int (length (awaiting l))
     \<and> \<not> num_lt (ToNumber (concurrency l)) (Fin (of_int (activeCount l))))"



text \<open>
  What the limiter schedules, without the outcomes that the operations deliver to their
  promises: the view that shows whether an outcome changes the behaviour of the limiter.
\<close>

definition scheduling :: "'r limiter \<Rightarrow> unit limiter" where
  "scheduling l =
     \<lparr>concurrency = concurrency l, queue = queue l, activeCount = activeCount l,
      runCalls = runCalls l, ticks = ticks l, inflight = inflight l, awaiting = awaiting l,
      admitted = admitted l, futures = map (\<lambda>(j, r). (j, ())) (futures l)\<rparr>"

text \<open>The same event with another outcome of the operation.\<close>

fun with_outcome :: "(nat \<Rightarrow> 'r \<Rightarrow> 'r) \<Rightarrow> 'r levent \<Rightarrow> 'r levent" where
  "with_outcome f (Settle j r) = Settle j (f j r)"
| "with_outcome f ev = ev"

text \<open>The outcomes that a list of events delivers, in their order.\<close>

fun settlements :: "'r levent list \<Rightarrow> (nat \<times> 'r) list" where
  "settlements [] = []"
| "settlements (Settle j r # evs) = (j, r) # settlements evs"
| "settlements (ev # evs) = settlements evs"



text \<open>An event without the outcome it carries.\<close>

fun erase :: "'r levent \<Rightarrow> unit levent" where
  "erase Submit = Submit"
| "erase Tick = Tick"
| "erase (Settle j r) = Settle j ()"
| "erase (Continue j) = Continue j"
| "erase ClearQueue = ClearQueue"

section \<open>Invariants of an invocation\<close>

text \<open>
  A limiter of a fan-out, which is never cleared and receives its \<open>n\<close> operations before the
  first microtask runs: every operation is in the queue or has been started, and every
  started operation is in flight or has settled.
\<close>

definition job_inv :: "nat \<Rightarrow> 'r limiter \<Rightarrow> bool" where
  "job_inv n l = (runCalls l = n
     \<and> mset (admitted l) + mset (queue l) = mset [0..<n]
     \<and> mset (inflight l) + mset (map fst (futures l)) = mset (admitted l))"

text \<open>The calls and the replies of one API on the wire, in their order.\<close>

fun calls_of :: "api \<Rightarrow> wire list \<Rightarrow> (string \<times> string) list" where
  "calls_of a [] = []"
| "calls_of a (Call b s k # tr) = (if a = b then (s, k) # calls_of a tr else calls_of a tr)"
| "calls_of a (Reply b s rep # tr) = calls_of a tr"

fun replies_of :: "api \<Rightarrow> wire list \<Rightarrow> (string \<times> reply) list" where
  "replies_of a [] = []"
| "replies_of a (Call b s k # tr) = replies_of a tr"
| "replies_of a (Reply b s rep # tr) = (if a = b then (s, rep) # replies_of a tr else replies_of a tr)"

text \<open>The references that \<open>M\<close> passes to \<open>w\<close> (tagging) and to \<open>x\<close> (untagging).\<close>

definition refs_for :: "request \<Rightarrow> api \<Rightarrow> string list" where
  "refs_for r a =
     (let ks = Object_keys (imports_map (ResourceProperties r)) in
      case RequestType r of
        Create \<Rightarrow> (case a of addTagsToResource \<Rightarrow> ks | removeTagsFromResource \<Rightarrow> [])
      | Delete \<Rightarrow> (case a of addTagsToResource \<Rightarrow> [] | removeTagsFromResource \<Rightarrow> ks)
      | Update \<Rightarrow>
          (case OldResourceProperties r of
             None \<Rightarrow> []
           | Some old \<Rightarrow>
               (case a of
                  addTagsToResource \<Rightarrow> P ks (Object_keys (imports_map old))
                | removeTagsFromResource \<Rightarrow> P (Object_keys (imports_map old)) ks)))"

definition phase_ok :: "request \<Rightarrow> api \<Rightarrow> bool" where
  "phase_ok r a =
     ((case a of addTagsToResource \<Rightarrow> RequestType r \<noteq> Delete
               | removeTagsFromResource \<Rightarrow> RequestType r \<noteq> Create)
      \<and> (RequestType r = Update \<longrightarrow> OldResourceProperties r \<noteq> None))"

text \<open>
  The untagging of the invocation is complete on a wire: every reference to untag has been
  called once and replied to once, and no reply was a failure that \<open>x\<close> throws again.
\<close>

definition untag_done :: "request \<Rightarrow> wire list \<Rightarrow> bool" where
  "untag_done r tr =
     (mset (calls_of removeTagsFromResource tr)
        = mset (map (\<lambda>s. (s, tag_key r)) (refs_for r removeTagsFromResource))
      \<and> mset (map fst (replies_of removeTagsFromResource tr))
        = mset (refs_for r removeTagsFromResource)
      \<and> (\<forall>(s, rep) \<in> set (replies_of removeTagsFromResource tr). untag_outcome s rep = Fulfilled))"

text \<open>Every tagging call on the wire comes after the complete untagging.\<close>

definition tag_after_untag :: "request \<Rightarrow> wire list \<Rightarrow> bool" where
  "tag_after_untag r tr =
     (\<forall>pre s k post. tr = pre @ Call addTagsToResource s k # post
        \<longrightarrow> untag_done r pre
          \<and> calls_of removeTagsFromResource post = []
          \<and> replies_of removeTagsFromResource post = [])"

text \<open>The wire of the current fan-out mirrors the limiter of the fan-out.\<close>

definition wire_inv :: "request \<Rightarrow> api \<Rightarrow> string list \<Rightarrow> settled limiter \<Rightarrow> wire list \<Rightarrow> bool" where
  "wire_inv r a e l tr =
     (calls_of a tr = map (\<lambda>j. (e ! j, tag_key r)) (admitted l)
      \<and> map (\<lambda>(s, rep). (s, outcome_of a s rep)) (replies_of a tr)
        = map (\<lambda>(j, out). (e ! j, out)) (futures l))"

definition other_inv :: "request \<Rightarrow> api \<Rightarrow> wire list \<Rightarrow> bool" where
  "other_inv r a tr =
     (case a of
        removeTagsFromResource \<Rightarrow>
          calls_of addTagsToResource tr = [] \<and> replies_of addTagsToResource tr = []
      | addTagsToResource \<Rightarrow> untag_done r tr \<and> tag_after_untag r tr)"

definition result_ok ::
  "request \<Rightarrow> api \<Rightarrow> nat \<Rightarrow> settled limiter \<Rightarrow> (js_error + response option) option \<Rightarrow> bool" where
  "result_ok r a n l res =
     (case res of
        None \<Rightarrow> True
      | Some (Inl err) \<Rightarrow> first_rejection (futures l) = Some err
      | Some (Inr v) \<Rightarrow>
          first_rejection (futures l) = None \<and> length (futures l) = n
          \<and> (a = addTagsToResource \<or> RequestType r = Delete)
          \<and> v = (if RequestType r = Delete then None
                 else Some \<lparr>Data = imports_map (ResourceProperties r)\<rparr>))"

definition hinv :: "request \<Rightarrow> invocation \<Rightarrow> bool" where
  "hinv r st =
     (case fanout st of
        None \<Rightarrow> wire st = [] \<and> (\<exists>err. result st = Some (Inl err))
      | Some (a, e, l) \<Rightarrow>
          linv l \<and> concurrency l = JNumber (Fin 10) \<and> job_inv (length e) l
          \<and> e = refs_for r a \<and> phase_ok r a
          \<and> wire_inv r a e l (wire st) \<and> other_inv r a (wire st)
          \<and> result_ok r a (length e) l (result st))"

section \<open>Example requests\<close>

text \<open>A creation with the imports \<open>{a: "r1", b: "r2"}\<close>.\<close>

definition create_ab :: request where
  "create_ab =
     \<lparr>RequestType = Create,
      ResourceProperties = \<lparr>imports_map = [(''a'', ''r1''), (''b'', ''r2'')], prefix = ''p'', region = ''us-east-1''\<rparr>,
      OldResourceProperties = None\<rparr>"

text \<open>A creation with three imports.\<close>

definition create_abc :: request where
  "create_abc =
     \<lparr>RequestType = Create,
      ResourceProperties = \<lparr>imports_map = [(''a'', ''r1''), (''b'', ''r2''), (''c'', ''r3'')], prefix = ''p'', region = ''us-east-1''\<rparr>,
      OldResourceProperties = None\<rparr>"

text \<open>An update from \<open>{a: "r1", b: "r2"}\<close> to \<open>{a: "r1", c: "r3"}\<close>.\<close>

definition update_ab_ac :: request where
  "update_ab_ac =
     \<lparr>RequestType = Update,
      ResourceProperties = \<lparr>imports_map = [(''a'', ''r1''), (''c'', ''r3'')], prefix = ''p'', region = ''us-east-1''\<rparr>,
      OldResourceProperties =
        Some \<lparr>imports_map = [(''a'', ''r1''), (''b'', ''r2'')], prefix = ''p'', region = ''us-east-1''\<rparr>\<rparr>"

text \<open>A deletion with the imports \<open>{a: "r1"}\<close>.\<close>

definition delete_a :: request where
  "delete_a =
     \<lparr>RequestType = Delete,
      ResourceProperties = \<lparr>imports_map = [(''a'', ''r1'')], prefix = ''p'', region = ''us-east-1''\<rparr>,
      OldResourceProperties = None\<rparr>"

section \<open>Properties of the limiter\<close>

lemma isInteger_pos: "isInteger n \<Longrightarrow> num_lt (Fin 0) n \<Longrightarrow> \<exists>k::int. 0 < k \<and> n = Fin (of_int k)"
proof (cases n)
  case (Fin q)
  assume "isInteger n" "num_lt (Fin 0) n"
  with Fin have q: "q = of_int \<lfloor>q\<rfloor>" "0 < q" by simp_all
  then have "0 < \<lfloor>q\<rfloor>" by linarith
  with q Fin show ?thesis by blast
qed simp_all

lemma z_Inr_iff: "(\<exists>l. (z r :: js_error + 'r limiter) = Inr l) \<longleftrightarrow> valid_limit r"
proof
  assume "\<exists>l. (z r :: js_error + 'r limiter) = Inr l"
  then have c: "(Number_isInteger r \<or> r = JNumber PInf)" "num_lt (Fin 0) (ToNumber r)"
    by (auto simp: z_def num_gt_def split: if_splits)
  show "valid_limit r"
  proof (cases r)
    case (JNumber n)
    with c isInteger_pos[of n] show ?thesis by (auto simp: valid_limit_def)
  qed (use c in simp_all)
next
  assume "valid_limit r"
  then show "\<exists>l. (z r :: js_error + 'r limiter) = Inr l"
    by (auto simp: valid_limit_def z_def num_gt_def)
qed

lemma z_Inr_fields:
  "z r = Inr l \<Longrightarrow> concurrency l = r \<and> queue l = [] \<and> activeCount l = 0 \<and> runCalls l = 0 \<and> ticks l = 0
     \<and> inflight l = [] \<and> awaiting l = [] \<and> admitted l = [] \<and> futures l = []"
  by (auto simp: z_def split: if_splits)

lemma valid_limit_le: "valid_limit r \<Longrightarrow> \<not> num_lt (ToNumber r) (Fin (of_int t)) \<Longrightarrow> num_lt (Fin (of_int (t - 1))) (ToNumber r)"
  by (auto simp: valid_limit_def)

lemma valid_limit_lt: "valid_limit r \<Longrightarrow> num_lt (Fin (of_int t)) (ToNumber r) \<Longrightarrow> \<not> num_lt (ToNumber r) (Fin (of_int (t + 1)))"
  by (auto simp: valid_limit_def)

lemma valid_limit_mono: "valid_limit r \<Longrightarrow> \<not> num_lt (ToNumber r) (Fin (of_int t)) \<Longrightarrow> t' \<le> t \<Longrightarrow> \<not> num_lt (ToNumber r) (Fin (of_int t'))"
  by (auto simp: valid_limit_def)

lemma linv_z:
  assumes "z r = Inr l"
  shows "linv l"
proof -
  from assms have v: "valid_limit r" using z_Inr_iff[of r] by blast
  from assms have f: "concurrency l = r" "activeCount l = 0" "inflight l = []" "awaiting l = []"
    using z_Inr_fields[OF assms] by simp_all
  from v have "\<not> num_lt (ToNumber r) (Fin 0)" by (auto simp: valid_limit_def)
  with v f show ?thesis by (simp add: linv_def)
qed

lemma length_remove1_int: "j \<in> set xs \<Longrightarrow> int (length (remove1 j xs)) = int (length xs) - 1"
  by (induction xs) auto

lemma linv_dequeue_run:
  assumes "valid_limit (concurrency l)" "activeCount l = int (length (inflight l)) + int (length (awaiting l))"
    "queue l = [] \<longrightarrow> \<not> num_lt (ToNumber (concurrency l)) (Fin (of_int (activeCount l)))"
    "queue l \<noteq> [] \<longrightarrow> num_lt (Fin (of_int (activeCount l))) (ToNumber (concurrency l))"
  shows "linv (dequeue_run l)"
  using assms valid_limit_lt[of "concurrency l" "activeCount l"]
  by (auto simp: linv_def dequeue_run_def run_start_def split: list.splits)

lemma linv_lstep: "linv l \<Longrightarrow> lstep ev l = Some l' \<Longrightarrow> linv l'"
proof (cases ev)
  case Submit
  assume "linv l" "lstep ev l = Some l'"
  with Submit show ?thesis by (auto simp: linv_def generator_def)
next
  case Tick
  assume a: "linv l" "lstep ev l = Some l'"
  show ?thesis
  proof (cases "num_lt (Fin (of_int (activeCount l))) (ToNumber (concurrency l)) \<and> length (queue l) > 0")
    case True
    with a Tick have "l' = dequeue_run (l\<lparr>ticks := ticks l - 1\<rparr>)" by (auto simp: admit_def split: if_splits)
    moreover have "linv (dequeue_run (l\<lparr>ticks := ticks l - 1\<rparr>))"
      using a(1) True by (intro linv_dequeue_run) (auto simp: linv_def)
    ultimately show ?thesis by simp
  next
    case False
    with a Tick have "l' = l\<lparr>ticks := ticks l - 1\<rparr>" by (auto simp: admit_def split: if_splits)
    with a(1) show ?thesis by (auto simp: linv_def)
  qed
next
  case (Settle j r)
  assume a: "linv l" "lstep ev l = Some l'"
  with Settle have j: "j \<in> set (inflight l)" by (auto split: if_splits)
  with a Settle show ?thesis by (auto simp: linv_def length_remove1_int split: if_splits)
next
  case (Continue j)
  assume a: "linv l" "lstep ev l = Some l'"
  with Continue have j: "j \<in> set (awaiting l)" and l': "l' = next_queued (l\<lparr>awaiting := remove1 j (awaiting l)\<rparr>)"
    by (auto split: if_splits)
  have "linv (dequeue_run (decrement (l\<lparr>awaiting := remove1 j (awaiting l)\<rparr>)))"
    using a(1) j valid_limit_le[of "concurrency l" "activeCount l"] valid_limit_mono[of "concurrency l" "activeCount l" "activeCount l - 1"]
    by (intro linv_dequeue_run) (auto simp: linv_def decrement_def length_remove1_int)
  with l' show ?thesis by (simp add: next_queued_def)
next
  case ClearQueue
  assume "linv l" "lstep ev l = Some l'"
  with ClearQueue show ?thesis by (auto simp: linv_def)
qed

lemma concurrency_dequeue_run [simp]: "concurrency (dequeue_run l) = concurrency l"
  by (simp add: dequeue_run_def run_start_def split: list.splits)

lemma concurrency_lstep: "lstep ev l = Some l' \<Longrightarrow> concurrency l' = concurrency l"
  by (cases ev) (auto simp: generator_def admit_def next_queued_def decrement_def split: if_splits)

lemma linv_lrun: "linv l \<Longrightarrow> lrun evs l = Some l' \<Longrightarrow> linv l' \<and> concurrency l' = concurrency l"
proof (induction evs arbitrary: l)
  case Nil then show ?case by simp
next
  case (Cons ev evs)
  from Cons.prems obtain l1 where s: "lstep ev l = Some l1" and r: "lrun evs l1 = Some l'"
    by (auto split: option.splits)
  from Cons.prems(1) s have "linv l1" "concurrency l1 = concurrency l"
    by (auto dest: linv_lstep concurrency_lstep)
  with Cons.IH[OF _ r] show ?case by simp
qed

text \<open>
  Claim C8. Constructing a limiter throws (the TypeError of the concurrency check) if and
  only if the supplied value is neither a positive integer nor \<open>Infinity\<close>; for every
  positive integer and for \<open>Infinity\<close> the construction succeeds.
\<close>

theorem z_throws_iff_not_positive_integer_or_infinity:
  "((\<exists>e. (z r :: js_error + 'r limiter) = Inl e)
      \<longleftrightarrow> \<not> (r = JNumber PInf \<or> (\<exists>k::int. 0 < k \<and> r = JNumber (Fin (of_int k)))))
   \<and> ((\<exists>l. (z r :: js_error + 'r limiter) = Inr l)
      \<longleftrightarrow> (r = JNumber PInf \<or> (\<exists>k::int. 0 < k \<and> r = JNumber (Fin (of_int k)))))
   \<and> (\<forall>e. (z r :: js_error + 'r limiter) = Inl e
      \<longrightarrow> e = TypeError ''Expected `concurrency` to be a number from 1 and up'')"
proof -
  have a: "(\<exists>l. (z r :: js_error + 'r limiter) = Inr l)
      \<longleftrightarrow> (r = JNumber PInf \<or> (\<exists>k::int. 0 < k \<and> r = JNumber (Fin (of_int k))))"
    using z_Inr_iff[of r, where ?'r = 'r] by (simp add: valid_limit_def)
  have b: "(\<exists>e. (z r :: js_error + 'r limiter) = Inl e) \<longleftrightarrow> \<not> (\<exists>l. (z r :: js_error + 'r limiter) = Inr l)"
    by (cases "z r :: js_error + 'r limiter") auto
  have c: "\<forall>e. (z r :: js_error + 'r limiter) = Inl e
      \<longrightarrow> e = TypeError ''Expected `concurrency` to be a number from 1 and up''"
    by (auto simp: z_def split: if_splits)
  from a b c show ?thesis by blast
qed

theorem z_throws_iff_witness:
  "(\<exists>l. (z (JNumber (Fin 10)) :: js_error + unit limiter) = Inr l)
   \<and> (\<exists>l. (z (JNumber PInf) :: js_error + unit limiter) = Inr l)
   \<and> (\<exists>e. (z (JNumber (Fin (6 / 5))) :: js_error + unit limiter) = Inl e)
   \<and> (\<exists>e. (z (JNumber (Fin 0)) :: js_error + unit limiter) = Inl e)
   \<and> (\<exists>e. (z (JNumber NInf) :: js_error + unit limiter) = Inl e)
   \<and> (\<exists>e. (z JUndefined :: js_error + unit limiter) = Inl e)"
proof -
  have "(0::int) < 10 \<and> JNumber (Fin 10) = JNumber (Fin (of_int 10))" by simp
  then have k: "\<exists>k::int. 0 < k \<and> JNumber (Fin 10) = JNumber (Fin (of_int k))" by blast
  have n1: "\<not> (\<exists>k::int. 0 < k \<and> JNumber (Fin (6 / 5)) = JNumber (Fin (of_int k)))"
  proof
    assume "\<exists>k::int. 0 < k \<and> JNumber (Fin (6 / 5)) = JNumber (Fin (of_int k))"
    then obtain k :: int where "(6 / 5 :: rat) = of_int k" by auto
    then have "(6::rat) = of_int (5 * k)" by simp
    then have "(6::int) = 5 * k" by (metis of_int_eq_iff of_int_numeral)
    then show False by presburger
  qed
  have n2: "\<not> (\<exists>k::int. 0 < k \<and> JNumber (Fin 0) = JNumber (Fin (of_int k)))" by auto
  show ?thesis
    using z_throws_iff_not_positive_integer_or_infinity [of "JNumber (Fin 10)", where ?'r = unit]
      z_throws_iff_not_positive_integer_or_infinity [of "JNumber PInf", where ?'r = unit]
      z_throws_iff_not_positive_integer_or_infinity [of "JNumber (Fin (6 / 5))", where ?'r = unit]
      z_throws_iff_not_positive_integer_or_infinity [of "JNumber (Fin 0)", where ?'r = unit]
      z_throws_iff_not_positive_integer_or_infinity [of "JNumber NInf", where ?'r = unit]
      z_throws_iff_not_positive_integer_or_infinity [of JUndefined, where ?'r = unit]
      k n1 n2
    by simp
qed


subsection \<open>Admission in the order of submission\<close>














subsection \<open>Failures of operations and the limiter\<close>

lemma scheduling_dequeue_run: "scheduling (dequeue_run l) = dequeue_run (scheduling l)"
  by (cases "queue l") (simp_all add: scheduling_def dequeue_run_def run_start_def)

lemma scheduling_fields [simp]:
  "concurrency (scheduling l) = concurrency l" "queue (scheduling l) = queue l"
  "activeCount (scheduling l) = activeCount l" "runCalls (scheduling l) = runCalls l"
  "ticks (scheduling l) = ticks l" "inflight (scheduling l) = inflight l"
  "awaiting (scheduling l) = awaiting l" "admitted (scheduling l) = admitted l"
  by (simp_all add: scheduling_def)

lemma scheduling_lstep: "map_option scheduling (lstep ev l) = lstep (erase ev) (scheduling l)"
proof (cases ev)
  case Submit
  then show ?thesis by (simp add: scheduling_def generator_def)
next
  case Tick
  have "scheduling (admit (l\<lparr>ticks := ticks l - 1\<rparr>)) = admit ((scheduling l)\<lparr>ticks := ticks l - 1\<rparr>)"
  proof -
    have e: "scheduling (l\<lparr>ticks := ticks l - 1\<rparr>) = (scheduling l)\<lparr>ticks := ticks l - 1\<rparr>"
      by (simp add: scheduling_def)
    show ?thesis
      unfolding admit_def e [symmetric] by (simp add: scheduling_dequeue_run)
  qed
  with Tick show ?thesis by simp
next
  case (Settle j r)
  then show ?thesis by (simp add: scheduling_def)
next
  case (Continue j)
  have e: "scheduling (decrement (l\<lparr>awaiting := remove1 j (awaiting l)\<rparr>))
      = decrement ((scheduling l)\<lparr>awaiting := remove1 j (awaiting l)\<rparr>)"
    by (simp add: scheduling_def decrement_def)
  have "scheduling (next_queued (l\<lparr>awaiting := remove1 j (awaiting l)\<rparr>))
      = next_queued ((scheduling l)\<lparr>awaiting := remove1 j (awaiting l)\<rparr>)"
    unfolding next_queued_def scheduling_dequeue_run e ..
  with Continue show ?thesis by simp
next
  case ClearQueue
  then show ?thesis by (simp add: scheduling_def)
qed

lemma scheduling_lrun: "map_option scheduling (lrun evs l) = lrun (map erase evs) (scheduling l)"
proof (induction evs arbitrary: l)
  case Nil
  then show ?case by simp
next
  case (Cons ev evs)
  show ?case
  proof (cases "lstep ev l")
    case None
    with scheduling_lstep[of ev l] show ?thesis by simp
  next
    case (Some l1)
    with scheduling_lstep[of ev l] have "lstep (erase ev) (scheduling l) = Some (scheduling l1)"
      by simp
    with Some Cons.IH[of l1] show ?thesis by simp
  qed
qed

lemma erase_with_outcome [simp]: "erase (with_outcome f ev) = erase ev"
  by (cases ev) simp_all

lemma futures_dequeue_run [simp]: "futures (dequeue_run l) = futures l"
  by (cases "queue l") (simp_all add: dequeue_run_def run_start_def)

lemma futures_lstep:
  "lstep ev l = Some l' \<Longrightarrow> futures l' = futures l @ settlements [ev]"
  by (cases ev) (auto simp: generator_def admit_def next_queued_def decrement_def split: if_splits)

lemma settlements_Cons: "settlements (ev # evs) = settlements [ev] @ settlements evs"
  by (cases ev) simp_all

lemma futures_lrun: "lrun evs l = Some l' \<Longrightarrow> futures l' = futures l @ settlements evs"
proof (induction evs arbitrary: l)
  case Nil
  then show ?case by simp
next
  case (Cons ev evs)
  from Cons.prems obtain l1 where s: "lstep ev l = Some l1" and r: "lrun evs l1 = Some l'"
    by (auto split: option.splits)
  from Cons.IH[OF r] futures_lstep[OF s] show ?case
    by (subst settlements_Cons) simp
qed

text \<open>
  Claim C7. Whatever outcomes the operations have (\<open>f\<close> replaces the outcome of each
  settlement by any other, a rejection by a fulfilment for one), the limiter goes through
  the same states as far as its counter, its queue, its microtasks and the order of starts
  are concerned, and the same events are possible. Each promise receives the outcome of
  its own operation and nothing else: the outcomes delivered during a run are those of the
  settlements of the run, in their order. The resumption of \<open>s\<close> after a settlement takes
  one from the counter and starts the head of the queue, if there is one, and touches no
  promise.
\<close>

theorem limiter_isolates_failures:
  "map_option scheduling (lrun (map (with_outcome f) evs) l) = map_option scheduling (lrun evs l)
   \<and> (\<forall>s. lrun evs l = Some s \<longrightarrow> futures s = futures l @ settlements evs)
   \<and> (\<forall>j r s. lstep (Settle j r) l = Some s
        \<longrightarrow> futures s = futures l @ [(j, r)] \<and> activeCount s = activeCount l
          \<and> queue s = queue l \<and> admitted s = admitted l)
   \<and> (\<forall>j s. lstep (Continue j) l = Some s
        \<longrightarrow> activeCount s = activeCount l - 1 + (if queue l = [] then 0 else 1)
          \<and> queue s = tl (queue l) \<and> admitted s = admitted l @ take 1 (queue l)
          \<and> futures s = futures l)"
proof (intro conjI allI impI)
  show "map_option scheduling (lrun (map (with_outcome f) evs) l) = map_option scheduling (lrun evs l)"
    by (simp add: scheduling_lrun comp_def)
next
  fix s assume "lrun evs l = Some s"
  then show "futures s = futures l @ settlements evs" by (rule futures_lrun)
next
  fix j r s assume a: "lstep (Settle j r) l = Some s"
  then show "futures s = futures l @ [(j, r)]" by (auto split: if_splits)
  from a show "activeCount s = activeCount l" by (auto split: if_splits)
  from a show "queue s = queue l" by (auto split: if_splits)
  from a show "admitted s = admitted l" by (auto split: if_splits)
next
  fix j s assume a: "lstep (Continue j) l = Some s"
  then have s: "s = dequeue_run (decrement (l\<lparr>awaiting := remove1 j (awaiting l)\<rparr>))"
    by (auto simp: next_queued_def split: if_splits)
  show "activeCount s = activeCount l - 1 + (if queue l = [] then 0 else 1)"
    unfolding s by (cases "queue l") (simp_all add: dequeue_run_def decrement_def run_start_def)
  show "queue s = tl (queue l)"
    unfolding s by (cases "queue l") (simp_all add: dequeue_run_def decrement_def run_start_def)
  show "admitted s = admitted l @ take 1 (queue l)"
    unfolding s by (cases "queue l") (simp_all add: dequeue_run_def decrement_def run_start_def)
  show "futures s = futures l"
    unfolding s by (simp add: decrement_def)
qed

theorem limiter_isolates_failures_witness:
  "map_option scheduling
     (lrun [Submit, Submit, Tick, Settle 0 Fulfilled, Continue 0]
        \<lparr>concurrency = JNumber (Fin 1), queue = [], activeCount = 0, runCalls = 0, ticks = 0,
         inflight = [], awaiting = [], admitted = [], futures = []\<rparr>)
   = map_option scheduling
     (lrun [Submit, Submit, Tick, Settle 0 (Rejected (Error ''boom'')), Continue 0]
        \<lparr>concurrency = JNumber (Fin 1), queue = [], activeCount = 0, runCalls = 0, ticks = 0,
         inflight = [], awaiting = [], admitted = [], futures = []\<rparr>)
   \<and> lrun [Submit, Submit, Tick, Settle 0 (Rejected (Error ''boom'')), Continue 0]
        \<lparr>concurrency = JNumber (Fin 1), queue = [], activeCount = 0, runCalls = 0, ticks = 0,
         inflight = [], awaiting = [], admitted = [], futures = []\<rparr>
     = Some \<lparr>concurrency = JNumber (Fin 1), queue = [], activeCount = 1, runCalls = 2, ticks = 1,
         inflight = [1], awaiting = [], admitted = [0, 1],
         futures = [(0, Rejected (Error ''boom''))]\<rparr>
   \<and> lstep (Settle 0 (Rejected (Error ''boom'')))
        \<lparr>concurrency = JNumber (Fin 1), queue = [1], activeCount = 1, runCalls = 2, ticks = 1,
         inflight = [0], awaiting = [], admitted = [0], futures = []\<rparr>
     = Some \<lparr>concurrency = JNumber (Fin 1), queue = [1], activeCount = 1, runCalls = 2, ticks = 1,
         inflight = [], awaiting = [0], admitted = [0],
         futures = [(0, Rejected (Error ''boom''))]\<rparr>
   \<and> lstep (Continue 0)
        \<lparr>concurrency = JNumber (Fin 1), queue = [1], activeCount = 1, runCalls = 2, ticks = 1,
         inflight = [], awaiting = [0], admitted = [0],
         futures = [(0, Rejected (Error ''boom''))]\<rparr>
     = Some \<lparr>concurrency = JNumber (Fin 1), queue = [], activeCount = 1, runCalls = 2, ticks = 1,
         inflight = [1], awaiting = [], admitted = [0, 1],
         futures = [(0, Rejected (Error ''boom''))]\<rparr>
   \<and> [(0, Rejected (Error ''boom''))]
     = [] @ settlements [Submit, Submit, Tick, Settle 0 (Rejected (Error ''boom'')), Continue 0]
   \<and> (1 :: int) = 1 - 1 + (if [1 :: nat] = [] then 0 else 1)"
proof -
  let ?l0 = "\<lparr>concurrency = JNumber (Fin 1), queue = [], activeCount = 0, runCalls = 0, ticks = 0,
         inflight = [], awaiting = [], admitted = [], futures = []\<rparr> :: settled limiter"
  let ?l1 = "\<lparr>concurrency = JNumber (Fin 1), queue = [1], activeCount = 1, runCalls = 2, ticks = 1,
         inflight = [0], awaiting = [], admitted = [0], futures = []\<rparr> :: settled limiter"
  let ?l2 = "\<lparr>concurrency = JNumber (Fin 1), queue = [1], activeCount = 1, runCalls = 2, ticks = 1,
         inflight = [], awaiting = [0], admitted = [0],
         futures = [(0, Rejected (Error ''boom''))]\<rparr> :: settled limiter"
  let ?l3 = "\<lparr>concurrency = JNumber (Fin 1), queue = [], activeCount = 1, runCalls = 2, ticks = 1,
         inflight = [1], awaiting = [], admitted = [0, 1],
         futures = [(0, Rejected (Error ''boom''))]\<rparr> :: settled limiter"
  let ?evs = "[Submit, Submit, Tick, Settle 0 (Rejected (Error ''boom'')), Continue 0]"
  have r: "lrun ?evs ?l0 = Some ?l3"
    by (simp add: generator_def admit_def dequeue_run_def run_start_def next_queued_def decrement_def)
  have s: "lstep (Settle 0 (Rejected (Error ''boom''))) ?l1 = Some ?l2" by simp
  have c: "lstep (Continue 0) ?l2 = Some ?l3"
    by (simp add: dequeue_run_def run_start_def next_queued_def decrement_def)
  have "map_option scheduling (lrun (map (with_outcome (\<lambda>j r. Fulfilled)) ?evs) ?l0)
      = map_option scheduling (lrun ?evs ?l0)"
    using limiter_isolates_failures [of "\<lambda>j r. Fulfilled" ?evs ?l0] by blast
  then have m: "map_option scheduling (lrun [Submit, Submit, Tick, Settle 0 Fulfilled, Continue 0] ?l0)
      = map_option scheduling (lrun ?evs ?l0)"
    by simp
  from limiter_isolates_failures [of "\<lambda>j r. Fulfilled" ?evs ?l0] r
  have "futures ?l3 = futures ?l0 @ settlements ?evs" by blast
  then have f: "[(0, Rejected (Error ''boom''))] = [] @ settlements ?evs" by simp
  from limiter_isolates_failures [of "\<lambda>j r. Fulfilled" ?evs ?l2] c
  have "activeCount ?l3 = activeCount ?l2 - 1 + (if queue ?l2 = [] then 0 else 1)" by blast
  then have d: "(1 :: int) = 1 - 1 + (if [1 :: nat] = [] then 0 else 1)" by simp
  from m r s c f d show ?thesis by (intro conjI)
qed


section \<open>Properties of an invocation\<close>

subsection \<open>The limiter of a fan-out\<close>

lemma fold_generator:
  "fold (\<lambda>s. generator) e l =
     l\<lparr>queue := queue l @ [runCalls l..<runCalls l + length e],
       runCalls := runCalls l + length e, ticks := ticks l + length e\<rparr>"
proof (induction e arbitrary: l)
  case Nil
  then show ?case by simp
next
  case (Cons s e)
  have u: "[runCalls l..<runCalls l + length (s # e)]
      = runCalls l # [runCalls (generator l)..<runCalls (generator l) + length e]"
    by (simp add: upt_conv_Cons generator_def del: upt_Suc)
  have "fold (\<lambda>s. generator) (s # e) l = fold (\<lambda>s. generator) e (generator l)" by simp
  also have "\<dots> = (generator l)\<lparr>queue := queue (generator l)
        @ [runCalls (generator l)..<runCalls (generator l) + length e],
      runCalls := runCalls (generator l) + length e, ticks := ticks (generator l) + length e\<rparr>"
    by (rule Cons.IH)
  also have "\<dots> = l\<lparr>queue := queue l @ [runCalls l..<runCalls l + length (s # e)],
      runCalls := runCalls l + length (s # e), ticks := ticks l + length (s # e)\<rparr>"
    unfolding u by (simp add: generator_def del: upt_Suc)
  finally show ?case .
qed

lemma z_10:
  "(z (JNumber (Fin 10)) :: js_error + 'r limiter) =
     Inr \<lparr>concurrency = JNumber (Fin 10), queue = [], activeCount = 0, runCalls = 0, ticks = 0,
          inflight = [], awaiting = [], admitted = [], futures = []\<rparr>"
  by (simp add: z_def num_gt_def)

lemma fan_out_eq:
  "fan_out a e tr =
     \<lparr>result = None,
      fanout = Some (a, e,
        \<lparr>concurrency = JNumber (Fin 10), queue = [0..<length e], activeCount = 0,
         runCalls = length e, ticks = length e, inflight = [], awaiting = [], admitted = [],
         futures = []\<rparr>),
      wire = tr\<rparr>"
  by (simp add: fan_out_def z_10 fold_generator)

lemma linv_fan_out:
  "linv \<lparr>concurrency = JNumber (Fin 10), queue = q, activeCount = 0,
         runCalls = n, ticks = k, inflight = [], awaiting = [], admitted = [],
         futures = []\<rparr>"
proof -
  have "(0::int) < 10 \<and> JNumber (Fin 10) = JNumber (Fin (of_int 10))" by simp
  then have "valid_limit (JNumber (Fin 10))" unfolding valid_limit_def by blast
  then show ?thesis by (simp add: linv_def)
qed

lemma job_inv_fan_out:
  "job_inv (length e) \<lparr>concurrency = c, queue = [0..<length e], activeCount = 0,
         runCalls = length e, ticks = k, inflight = [], awaiting = [], admitted = [],
         futures = []\<rparr>"
  by (simp add: job_inv_def)

text \<open>What a step other than a submission or \<open>clearQueue\<close> does to the lists of a limiter.\<close>

lemma lstep_lists:
  assumes "lstep ev l = Some l'" "ev \<noteq> Submit" "ev \<noteq> ClearQueue"
  shows "runCalls l' = runCalls l
     \<and> ((\<exists>j r. ev = Settle j r \<and> j \<in> set (inflight l) \<and> inflight l' = remove1 j (inflight l)
            \<and> futures l' = futures l @ [(j, r)] \<and> admitted l' = admitted l \<and> queue l' = queue l)
       \<or> (futures l' = futures l \<and> inflight l' = inflight l \<and> admitted l' = admitted l
            \<and> queue l' = queue l)
       \<or> (\<exists>h q. futures l' = futures l \<and> queue l = h # q \<and> queue l' = q
            \<and> admitted l' = admitted l @ [h] \<and> inflight l' = inflight l @ [h]))"
proof (cases ev)
  case Tick
  with assms(1) show ?thesis
    by (cases "queue l") (auto simp: admit_def dequeue_run_def run_start_def split: if_splits)
next
  case (Settle j r)
  with assms(1) show ?thesis by (auto split: if_splits)
next
  case (Continue j)
  with assms(1) show ?thesis
    by (cases "queue l")
      (auto simp: next_queued_def decrement_def dequeue_run_def run_start_def split: if_splits)
qed (use assms in simp_all)

lemma job_inv_lstep:
  assumes "job_inv n l" "lstep ev l = Some l'" "ev \<noteq> Submit" "ev \<noteq> ClearQueue"
  shows "job_inv n l'"
proof -
  from lstep_lists[OF assms(2-4)] have rc: "runCalls l' = runCalls l" by blast
  from lstep_lists[OF assms(2-4)] consider
      (settle) j r where "j \<in> set (inflight l)" "inflight l' = remove1 j (inflight l)"
        "futures l' = futures l @ [(j, r)]" "admitted l' = admitted l" "queue l' = queue l"
    | (same) "futures l' = futures l" "inflight l' = inflight l" "admitted l' = admitted l"
        "queue l' = queue l"
    | (admit) h q where "futures l' = futures l" "queue l = h # q" "queue l' = q"
        "admitted l' = admitted l @ [h]" "inflight l' = inflight l @ [h]"
    by blast
  then show ?thesis
  proof cases
    case settle
    from settle(1) have "mset (remove1 j (inflight l)) + mset (map fst (futures l @ [(j, r)]))
        = mset (inflight l) + mset (map fst (futures l))"
      by simp
    with settle assms(1) rc show ?thesis unfolding job_inv_def by metis
  next
    case same
    with assms(1) rc show ?thesis by (simp add: job_inv_def)
  next
    case admit
    with assms(1) rc show ?thesis by (simp add: job_inv_def)
  qed
qed

text \<open>Once every promise of the fan-out has settled, nothing waits and nothing is in flight.\<close>

lemma job_inv_all_settled:
  assumes "job_inv n l" "length (futures l) = n"
  shows "queue l = [] \<and> inflight l = [] \<and> mset (admitted l) = mset [0..<n]
     \<and> mset (map fst (futures l)) = mset [0..<n]"
proof -
  from assms(1) have a: "mset (admitted l) + mset (queue l) = mset [0..<n]"
    and b: "mset (inflight l) + mset (map fst (futures l)) = mset (admitted l)"
    by (simp_all add: job_inv_def)
  from a have "length (admitted l) + length (queue l) = n"
    by (metis length_append length_upt mset_append size_mset diff_zero)
  moreover from b have "length (inflight l) + length (futures l) = length (admitted l)"
    by (metis length_append length_map mset_append size_mset)
  ultimately have "queue l = []" "inflight l = []" using assms(2) by auto
  with a b show ?thesis by simp
qed

lemma job_inv_bounds:
  assumes "job_inv n l"
  shows "\<forall>j \<in> set (admitted l). j < n" "\<forall>j \<in> set (inflight l). j < n"
    "\<forall>j \<in> fst ` set (futures l). j < n" "distinct (admitted l)"
proof -
  from assms have a: "mset (admitted l) + mset (queue l) = mset [0..<n]"
    and b: "mset (inflight l) + mset (map fst (futures l)) = mset (admitted l)"
    by (simp_all add: job_inv_def)
  from a have s: "set (admitted l) \<union> set (queue l) = {0..<n}"
    by (metis set_append mset_append set_mset_mset set_upt)
  then show 1: "\<forall>j \<in> set (admitted l). j < n" by auto
  from b have "set (inflight l) \<union> set (map fst (futures l)) = set (admitted l)"
    by (metis set_append mset_append set_mset_mset)
  with 1 show "\<forall>j \<in> set (inflight l). j < n" "\<forall>j \<in> fst ` set (futures l). j < n" by auto
  from a have "distinct (admitted l @ queue l)"
    by (metis distinct_upt mset_append mset_eq_imp_distinct_iff)
  then show "distinct (admitted l)" by simp
qed

subsection \<open>The wire\<close>

lemma calls_of_append [simp]: "calls_of a (tr @ tr') = calls_of a tr @ calls_of a tr'"
  by (induction a tr rule: calls_of.induct) simp_all

lemma replies_of_append [simp]: "replies_of a (tr @ tr') = replies_of a tr @ replies_of a tr'"
  by (induction a tr rule: replies_of.induct) simp_all

lemma calls_of_map_Call [simp]:
  "calls_of a (map (\<lambda>j. Call b (g j) k) js) = (if a = b then map (\<lambda>j. (g j, k)) js else [])"
  by (induction js) auto

lemma replies_of_map_Call [simp]: "replies_of a (map (\<lambda>j. Call b (g j) k) js) = []"
  by (induction js) simp_all

lemma Call_in_calls_of: "Call a s k \<in> set tr \<longleftrightarrow> (s, k) \<in> set (calls_of a tr)"
  by (induction a tr rule: calls_of.induct) auto

lemma Reply_in_replies_of: "Reply a s rep \<in> set tr \<longleftrightarrow> (s, rep) \<in> set (replies_of a tr)"
  by (induction a tr rule: replies_of.induct) auto

lemma first_rejection_append:
  "first_rejection (fs @ gs) =
     (case first_rejection fs of Some e \<Rightarrow> Some e | None \<Rightarrow> first_rejection gs)"
  by (induction fs rule: first_rejection.induct) simp_all

lemma first_rejection_None_iff:
  "first_rejection fs = None \<longleftrightarrow> (\<forall>(j, out) \<in> set fs. out = Fulfilled)"
  by (induction fs rule: first_rejection.induct) auto

lemma first_rejection_Some:
  "first_rejection fs = Some e \<Longrightarrow> \<exists>j. (j, Rejected e) \<in> set fs"
  by (induction fs rule: first_rejection.induct) auto


subsection \<open>The steps of an invocation\<close>

lemma new_calls_eq:
  "admitted l' = admitted l @ ns \<Longrightarrow> new_calls a e k l l' = map (\<lambda>j. Call a (e ! j) k) ns"
  by (simp add: new_calls_def)

lemma hstep_cases:
  assumes "hstep r ev st = Some st'" "fanout st = Some (a, e, l)"
  shows "(\<exists>lev l' tr. lstep lev l = Some l' \<and> lev \<noteq> Submit \<and> lev \<noteq> ClearQueue
            \<and> st' = st\<lparr>fanout := Some (a, e, l'), wire := wire st @ tr\<rparr>
            \<and> ((\<exists>j rep. ev = HReply j rep \<and> j < length e
                   \<and> lev = Settle j (outcome_of a (e ! j) rep) \<and> tr = [Reply a (e ! j) rep])
               \<or> ((ev = HTick \<and> lev = Tick \<or> (\<exists>j. ev = HContinue j \<and> lev = Continue j))
                   \<and> tr = new_calls a e (tag_key r) l l')))
       \<or> (ev = HResume \<and> result st = None
            \<and> ((\<exists>err. Promise_all (length e) l = AllRejected err
                   \<and> st' = st\<lparr>result := Some (Inl err)\<rparr>)
               \<or> (Promise_all (length e) l = AllFulfilled \<and> st' = M_resume r a st)))"
proof (cases ev)
  case HTick
  with assms show ?thesis by (auto split: option.splits simp del: lstep.simps)
next
  case (HReply j rep)
  with assms show ?thesis by (auto split: option.splits if_splits simp del: lstep.simps)
next
  case (HContinue j)
  with assms show ?thesis by (auto split: option.splits simp del: lstep.simps)
next
  case HResume
  with assms show ?thesis by (auto split: all_state.splits if_splits)
qed

lemma hstep_fanout_None: "fanout st = None \<Longrightarrow> hstep r ev st = None"
  by simp

text \<open>Appending traffic of the tagging API keeps the order on the wire.\<close>

lemma untag_done_append:
  "calls_of removeTagsFromResource tr' = [] \<Longrightarrow> replies_of removeTagsFromResource tr' = []
     \<Longrightarrow> untag_done r (tr @ tr') = untag_done r tr"
  by (simp add: untag_done_def)

lemma tag_after_untag_snoc:
  assumes "tag_after_untag r tr" "untag_done r tr"
    "calls_of removeTagsFromResource [ev] = []" "replies_of removeTagsFromResource [ev] = []"
  shows "tag_after_untag r (tr @ [ev])"
  unfolding tag_after_untag_def
proof (intro allI impI)
  fix pre s k post
  assume eq: "tr @ [ev] = pre @ Call addTagsToResource s k # post"
  show "untag_done r pre \<and> calls_of removeTagsFromResource post = []
      \<and> replies_of removeTagsFromResource post = []"
  proof (cases post rule: rev_cases)
    case Nil
    with eq have "pre = tr" by simp
    with Nil assms(2) show ?thesis by simp
  next
    case (snoc post' ev')
    with eq have tr: "tr = pre @ Call addTagsToResource s k # post'" and ev: "ev' = ev" by simp_all
    from assms(1) tr have "untag_done r pre \<and> calls_of removeTagsFromResource post' = []
        \<and> replies_of removeTagsFromResource post' = []"
      unfolding tag_after_untag_def by blast
    with snoc ev assms(3,4) show ?thesis by simp
  qed
qed

lemma tag_after_untag_no_calls:
  "calls_of addTagsToResource tr = [] \<Longrightarrow> tag_after_untag r tr"
  unfolding tag_after_untag_def
proof (intro allI impI)
  fix pre s k post
  assume "calls_of addTagsToResource tr = []" "tr = pre @ Call addTagsToResource s k # post"
  then have False by simp
  then show "untag_done r pre \<and> calls_of removeTagsFromResource post = []
      \<and> replies_of removeTagsFromResource post = []" ..
qed

lemma other_inv_snoc:
  assumes "other_inv r a tr" "ev = Call a s k \<or> ev = Reply a s rep"
  shows "other_inv r a (tr @ [ev])"
proof (cases a)
  case addTagsToResource
  with assms(2) have c: "calls_of removeTagsFromResource [ev] = []"
    "replies_of removeTagsFromResource [ev] = []" by auto
  from assms(1) addTagsToResource have "untag_done r tr" "tag_after_untag r tr"
    by (simp_all add: other_inv_def)
  with c have "untag_done r (tr @ [ev])" "tag_after_untag r (tr @ [ev])"
    by (simp_all add: untag_done_append tag_after_untag_snoc)
  with addTagsToResource show ?thesis by (simp add: other_inv_def)
next
  case removeTagsFromResource
  with assms show ?thesis by (auto simp: other_inv_def)
qed

lemma map_nth_upt_mset:
  assumes "mset js = mset [0..<length e]"
  shows "mset (map (\<lambda>j. g (e ! j)) js) = mset (map g e)"
proof -
  have "mset (map (\<lambda>j. g (e ! j)) js) = image_mset (\<lambda>j. g (e ! j)) (mset js)" by simp
  also have "\<dots> = image_mset (\<lambda>j. g (e ! j)) (mset [0..<length e])" by (simp only: assms)
  also have "\<dots> = mset (map (\<lambda>j. g (e ! j)) [0..<length e])" by simp
  also have "map (\<lambda>j. g (e ! j)) [0..<length e] = map g (map ((!) e) [0..<length e])" by simp
  also have "\<dots> = map g e" by (simp only: map_nth)
  finally show ?thesis .
qed

text \<open>When the untagging fan-out is fulfilled, the untagging is complete on the wire.\<close>

lemma untag_done_fulfilled:
  assumes "job_inv (length e) l" "wire_inv r removeTagsFromResource e l tr"
    "e = refs_for r removeTagsFromResource"
    "first_rejection (futures l) = None" "length (futures l) = length e"
  shows "untag_done r tr"
proof -
  from job_inv_all_settled[OF assms(1,5)]
  have adm: "mset (admitted l) = mset [0..<length e]"
    and fut: "mset (map fst (futures l)) = mset [0..<length e]" by simp_all
  from assms(2) have c: "calls_of removeTagsFromResource tr = map (\<lambda>j. (e ! j, tag_key r)) (admitted l)"
    and rp: "map (\<lambda>(s, rep). (s, outcome_of removeTagsFromResource s rep)) (replies_of removeTagsFromResource tr)
        = map (\<lambda>(j, out). (e ! j, out)) (futures l)"
    by (simp_all add: wire_inv_def)
  have 1: "mset (calls_of removeTagsFromResource tr) = mset (map (\<lambda>s. (s, tag_key r)) e)"
    unfolding c using map_nth_upt_mset[OF adm, of "\<lambda>s. (s, tag_key r)"] .
  have "map fst (replies_of removeTagsFromResource tr)
      = map fst (map (\<lambda>(s, rep). (s, outcome_of removeTagsFromResource s rep)) (replies_of removeTagsFromResource tr))"
    by (simp add: comp_def case_prod_unfold)
  also have "\<dots> = map (\<lambda>j. e ! j) (map fst (futures l))"
    unfolding rp by (simp add: comp_def case_prod_unfold)
  finally have "mset (map fst (replies_of removeTagsFromResource tr)) = mset (map (\<lambda>j. e ! j) (map fst (futures l)))"
    by simp
  also have "\<dots> = mset (map (\<lambda>s. s) e)"
    using map_nth_upt_mset[OF fut, of "\<lambda>s. s"] .
  finally have 2: "mset (map fst (replies_of removeTagsFromResource tr)) = mset e" by simp
  have 3: "\<forall>(s, rep) \<in> set (replies_of removeTagsFromResource tr). untag_outcome s rep = Fulfilled"
  proof (intro ballI, clarify)
    fix s rep
    assume "(s, rep) \<in> set (replies_of removeTagsFromResource tr)"
    then have "(s, untag_outcome s rep)
        \<in> set (map (\<lambda>(s, rep). (s, outcome_of removeTagsFromResource s rep)) (replies_of removeTagsFromResource tr))"
      by force
    then have "(s, untag_outcome s rep) \<in> set (map (\<lambda>(j, out). (e ! j, out)) (futures l))"
      by (simp only: rp)
    then obtain j where "(j, untag_outcome s rep) \<in> set (futures l)" by auto
    with assms(4) show "untag_outcome s rep = Fulfilled"
      by (auto simp: first_rejection_None_iff)
  qed
  from 1 2 3 assms(3) show ?thesis by (simp add: untag_done_def)
qed


subsection \<open>The invariant of an invocation\<close>

lemma Promise_all_cases:
  "Promise_all n l = AllRejected err \<longleftrightarrow> first_rejection (futures l) = Some err"
  "Promise_all n l = AllFulfilled \<longleftrightarrow> first_rejection (futures l) = None \<and> length (futures l) = n"
  "Promise_all n l = AllPending \<longleftrightarrow> first_rejection (futures l) = None \<and> length (futures l) \<noteq> n"
  by (auto simp: Promise_all_def split: option.splits)

lemma hinvD:
  assumes "hinv r st" "fanout st = Some (a, e, l)"
  shows "linv l" "concurrency l = JNumber (Fin 10)" "job_inv (length e) l" "e = refs_for r a"
    "phase_ok r a" "wire_inv r a e l (wire st)" "other_inv r a (wire st)"
    "result_ok r a (length e) l (result st)"
proof -
  from assms have "linv l \<and> concurrency l = JNumber (Fin 10) \<and> job_inv (length e) l
      \<and> e = refs_for r a \<and> phase_ok r a \<and> wire_inv r a e l (wire st)
      \<and> other_inv r a (wire st) \<and> result_ok r a (length e) l (result st)"
    by (auto simp: hinv_def)
  then show "linv l" "concurrency l = JNumber (Fin 10)" "job_inv (length e) l" "e = refs_for r a"
    "phase_ok r a" "wire_inv r a e l (wire st)" "other_inv r a (wire st)"
    "result_ok r a (length e) l (result st)"
    by blast+
qed

lemma hinvI:
  assumes "fanout st = Some (a, e, l)" "linv l" "concurrency l = JNumber (Fin 10)"
    "job_inv (length e) l" "e = refs_for r a" "phase_ok r a" "wire_inv r a e l (wire st)"
    "other_inv r a (wire st)" "result_ok r a (length e) l (result st)"
  shows "hinv r st"
  unfolding hinv_def using assms by simp

lemma result_ok_futures:
  "futures l' = futures l \<Longrightarrow> result_ok r a n l' res = result_ok r a n l res"
  by (simp add: result_ok_def split: option.splits sum.splits)

lemma hinv_reply:
  assumes inv: "hinv r st" and f: "fanout st = Some (a, e, l)"
    and s: "lstep (Settle j (outcome_of a (e ! j) rep)) l = Some l'"
  shows "hinv r (st\<lparr>fanout := Some (a, e, l'), wire := wire st @ [Reply a (e ! j) rep]\<rparr>)"
proof -
  note d = hinvD[OF inv f]
  from d have l: "linv l" and c: "concurrency l = JNumber (Fin 10)"
    and j: "job_inv (length e) l" and e: "e = refs_for r a" and p: "phase_ok r a"
    and w: "wire_inv r a e l (wire st)" and o: "other_inv r a (wire st)"
    and res: "result_ok r a (length e) l (result st)"
    by blast+
  from s have jin: "j \<in> set (inflight l)"
    and fut: "futures l' = futures l @ [(j, outcome_of a (e ! j) rep)]"
    and adm: "admitted l' = admitted l"
    by (auto split: if_splits)
  from l s have l': "linv l'" by (rule linv_lstep)
  from concurrency_lstep[OF s] c have c': "concurrency l' = JNumber (Fin 10)" by simp
  from j s have j': "job_inv (length e) l'" by (rule job_inv_lstep) simp_all
  from w fut adm have w': "wire_inv r a e l' (wire st @ [Reply a (e ! j) rep])"
    by (simp add: wire_inv_def)
  from o have o': "other_inv r a (wire st @ [Reply a (e ! j) rep])"
    by (rule other_inv_snoc) simp
  have res': "result_ok r a (length e) l' (result st)"
  proof (cases "result st")
    case None
    then show ?thesis by (simp add: result_ok_def)
  next
    case (Some v)
    show ?thesis
    proof (cases v)
      case (Inl err)
      with Some res fut show ?thesis by (simp add: result_ok_def first_rejection_append)
    next
      case (Inr out)
      with Some res have "length (futures l) = length e" by (simp add: result_ok_def)
      with j have "inflight l = []" by (simp add: job_inv_all_settled)
      with jin show ?thesis by simp
    qed
  qed
  show ?thesis
    by (rule hinvI[where a = a and e = e and l = l']) (use l' c' j' e p w' o' res' in simp_all)
qed

lemma hinv_admit:
  assumes inv: "hinv r st" and f: "fanout st = Some (a, e, l)"
    and s: "lstep lev l = Some l'" and lev: "lev = Tick \<or> lev = Continue j"
  shows "hinv r (st\<lparr>fanout := Some (a, e, l'), wire := wire st @ new_calls a e (tag_key r) l l'\<rparr>)"
proof -
  note d = hinvD[OF inv f]
  from d have l: "linv l" and c: "concurrency l = JNumber (Fin 10)"
    and j: "job_inv (length e) l" and e: "e = refs_for r a" and p: "phase_ok r a"
    and w: "wire_inv r a e l (wire st)" and o: "other_inv r a (wire st)"
    and res: "result_ok r a (length e) l (result st)"
    by blast+
  from lev have ne: "lev \<noteq> Submit" "lev \<noteq> ClearQueue" by auto
  from l s have l': "linv l'" by (rule linv_lstep)
  from concurrency_lstep[OF s] c have c': "concurrency l' = JNumber (Fin 10)" by simp
  from j s ne have j': "job_inv (length e) l'" by (rule job_inv_lstep)
  from lstep_lists[OF s ne] lev have fut: "futures l' = futures l"
    and adm: "admitted l' = admitted l \<or> (\<exists>h. admitted l' = admitted l @ [h])"
    by auto
  from res have res': "result_ok r a (length e) l' (result st)"
    by (simp only: result_ok_futures[OF fut])
  from adm show ?thesis
  proof
    assume same: "admitted l' = admitted l"
    then have "new_calls a e (tag_key r) l l' = []" by (simp add: new_calls_def)
    moreover from w fut same have "wire_inv r a e l' (wire st)" by (simp add: wire_inv_def)
    ultimately show ?thesis
      by (intro hinvI[where a = a and e = e and l = l']) (use l' c' j' e p o res' in simp_all)
  next
    assume "\<exists>h. admitted l' = admitted l @ [h]"
    then obtain h where h: "admitted l' = admitted l @ [h]" ..
    then have n: "new_calls a e (tag_key r) l l' = [Call a (e ! h) (tag_key r)]"
      by (simp add: new_calls_def)
    from w fut h have "wire_inv r a e l' (wire st @ [Call a (e ! h) (tag_key r)])"
      by (simp add: wire_inv_def)
    moreover from o have "other_inv r a (wire st @ [Call a (e ! h) (tag_key r)])"
      by (rule other_inv_snoc) simp
    ultimately show ?thesis
      by (intro hinvI[where a = a and e = e and l = l']) (use l' c' j' e p res' n in simp_all)
  qed
qed

lemma hinv_rejected:
  assumes inv: "hinv r st" and f: "fanout st = Some (a, e, l)"
    and pa: "Promise_all (length e) l = AllRejected err"
  shows "hinv r (st\<lparr>result := Some (Inl err)\<rparr>)"
proof -
  note d = hinvD[OF inv f]
  from pa have "result_ok r a (length e) l (Some (Inl err))"
    by (simp add: result_ok_def Promise_all_cases)
  then show ?thesis
    by (intro hinvI[where a = a and e = e and l = l]) (use d f in simp_all)
qed

lemma hinv_fan_out:
  assumes "e = refs_for r a" "phase_ok r a" "calls_of a tr = []" "replies_of a tr = []"
    "other_inv r a tr"
  shows "hinv r (fan_out a e tr)"
proof -
  let ?l = "\<lparr>concurrency = JNumber (Fin 10), queue = [0..<length e], activeCount = 0,
      runCalls = length e, ticks = length e, inflight = [], awaiting = [], admitted = [],
      futures = []\<rparr> :: settled limiter"
  have "hinv r \<lparr>result = None, fanout = Some (a, e, ?l), wire = tr\<rparr>"
  proof (rule hinvI[where a = a and e = e and l = ?l])
    show "linv ?l" by (rule linv_fan_out)
    show "job_inv (length e) ?l" by (rule job_inv_fan_out)
    show "wire_inv r a e ?l (wire \<lparr>result = None, fanout = Some (a, e, ?l), wire = tr\<rparr>)"
      using assms(3,4) by (simp add: wire_inv_def)
    show "result_ok r a (length e) ?l (result \<lparr>result = None, fanout = Some (a, e, ?l), wire = tr\<rparr>)"
      by (simp add: result_ok_def)
  qed (use assms in simp_all)
  then show ?thesis by (simp only: fan_out_eq)
qed

lemma hinv_fulfilled:
  assumes inv: "hinv r st" and f: "fanout st = Some (a, e, l)"
    and pa: "Promise_all (length e) l = AllFulfilled"
  shows "hinv r (M_resume r a st)"
proof -
  note d = hinvD[OF inv f]
  from d have l: "linv l" and c: "concurrency l = JNumber (Fin 10)"
    and j: "job_inv (length e) l" and e: "e = refs_for r a" and p: "phase_ok r a"
    and w: "wire_inv r a e l (wire st)" and o: "other_inv r a (wire st)"
    by blast+
  from pa have fr: "first_rejection (futures l) = None" and len: "length (futures l) = length e"
    by (simp_all add: Promise_all_cases)
  show ?thesis
  proof (cases a)
    case addTagsToResource
    with p have "RequestType r \<noteq> Delete" by (simp add: phase_ok_def)
    with fr len addTagsToResource have "result_ok r a (length e) l
        (Some (Inr (Some \<lparr>Data = imports_map (ResourceProperties r)\<rparr>)))"
      by (simp add: result_ok_def)
    then show ?thesis unfolding M_resume_def
      by (intro hinvI[where a = a and e = e and l = l])
        (use addTagsToResource f l c j e p w o in simp_all)
  next
    case removeTagsFromResource
    show ?thesis
    proof (cases "RequestType r = Delete")
      case True
      with fr len have "result_ok r a (length e) l (Some (Inr None))"
        by (simp add: result_ok_def)
      then show ?thesis unfolding M_resume_def
        by (intro hinvI[where a = a and e = e and l = l])
          (use True removeTagsFromResource f l c j e p w o in simp_all)
    next
      case False
      with p removeTagsFromResource have u: "RequestType r = Update" 
        by (cases "RequestType r") (simp_all add: phase_ok_def)
      with p obtain old where old: "OldResourceProperties r = Some old"
        by (auto simp: phase_ok_def)
      from u old removeTagsFromResource have m: "M_resume r a st
          = fan_out addTagsToResource (refs_for r addTagsToResource) (wire st)"
        by (simp add: M_resume_def w_def refs_for_def)
      from o removeTagsFromResource have none: "calls_of addTagsToResource (wire st) = []"
        "replies_of addTagsToResource (wire st) = []"
        by (simp_all add: other_inv_def)
      from j w e fr len removeTagsFromResource have "untag_done r (wire st)"
        by (auto intro: untag_done_fulfilled)
      with none have "other_inv r addTagsToResource (wire st)"
        by (simp add: other_inv_def tag_after_untag_no_calls)
      moreover from u old have "phase_ok r addTagsToResource" by (simp add: phase_ok_def)
      ultimately show ?thesis unfolding m using none by (intro hinv_fan_out) simp_all
    qed
  qed
qed

lemma hinv_hstep:
  assumes "hinv r st" "hstep r ev st = Some st'"
  shows "hinv r st'"
proof (cases "fanout st")
  case None
  with assms(2) show ?thesis by simp
next
  case (Some x)
  then obtain a e l where f: "fanout st = Some (a, e, l)" by (cases x) auto
  from hstep_cases[OF assms(2) f] consider
      (reply) j rep l' where "lstep (Settle j (outcome_of a (e ! j) rep)) l = Some l'"
        "st' = st\<lparr>fanout := Some (a, e, l'), wire := wire st @ [Reply a (e ! j) rep]\<rparr>"
    | (admit) lev l' j where "lstep lev l = Some l'" "lev = Tick \<or> lev = Continue j"
        "st' = st\<lparr>fanout := Some (a, e, l'), wire := wire st @ new_calls a e (tag_key r) l l'\<rparr>"
    | (rejected) err where "Promise_all (length e) l = AllRejected err"
        "st' = st\<lparr>result := Some (Inl err)\<rparr>"
    | (fulfilled) "Promise_all (length e) l = AllFulfilled" "st' = M_resume r a st"
    by blast
  then show ?thesis
  proof cases
    case reply
    with assms(1) f show ?thesis by (simp add: hinv_reply)
  next
    case admit
    with assms(1) f show ?thesis using hinv_admit by blast
  next
    case rejected
    with assms(1) f show ?thesis by (simp add: hinv_rejected)
  next
    case fulfilled
    with assms(1) f show ?thesis by (simp add: hinv_fulfilled)
  qed
qed

lemma untag_done_Nil: "refs_for r removeTagsFromResource = [] \<Longrightarrow> untag_done r []"
  by (simp add: untag_done_def)

lemma hinv_M: "hinv r (M r)"
proof (cases "RequestType r")
  case Create
  then have "M r = fan_out addTagsToResource (refs_for r addTagsToResource) []"
    by (simp add: M_def w_def refs_for_def)
  moreover from Create have "other_inv r addTagsToResource []"
    by (simp add: other_inv_def tag_after_untag_no_calls untag_done_Nil refs_for_def)
  moreover from Create have "phase_ok r addTagsToResource" by (simp add: phase_ok_def)
  ultimately show ?thesis by (simp add: hinv_fan_out)
next
  case Delete
  then have "M r = fan_out removeTagsFromResource (refs_for r removeTagsFromResource) []"
    by (simp add: M_def x_def refs_for_def)
  moreover have "other_inv r removeTagsFromResource []" by (simp add: other_inv_def)
  moreover from Delete have "phase_ok r removeTagsFromResource" by (simp add: phase_ok_def)
  ultimately show ?thesis by (simp add: hinv_fan_out)
next
  case Update
  show ?thesis
  proof (cases "OldResourceProperties r")
    case None
    with Update show ?thesis by (simp add: M_def hinv_def)
  next
    case (Some old)
    show ?thesis
    proof (cases "refs_for r removeTagsFromResource = []")
      case True
      with Update Some have "M r = fan_out addTagsToResource (refs_for r addTagsToResource) []"
        by (simp add: M_def w_def refs_for_def Let_def)
      moreover from True have "other_inv r addTagsToResource []"
        by (simp add: other_inv_def tag_after_untag_no_calls untag_done_Nil)
      moreover from Update Some have "phase_ok r addTagsToResource" by (simp add: phase_ok_def)
      ultimately show ?thesis by (simp add: hinv_fan_out)
    next
      case False
      with Update Some have "M r = fan_out removeTagsFromResource (refs_for r removeTagsFromResource) []"
        by (simp add: M_def x_def refs_for_def Let_def)
      moreover have "other_inv r removeTagsFromResource []" by (simp add: other_inv_def)
      moreover from Update Some have "phase_ok r removeTagsFromResource" by (simp add: phase_ok_def)
      ultimately show ?thesis by (simp add: hinv_fan_out)
    qed
  qed
qed

lemma hinv_hrun_from: "hinv r st \<Longrightarrow> hrun r evs st = Some st' \<Longrightarrow> hinv r st'"
proof (induction evs arbitrary: st)
  case Nil
  then show ?case by simp
next
  case (Cons ev evs)
  from Cons.prems obtain st1 where s: "hstep r ev st = Some st1" and rest: "hrun r evs st1 = Some st'"
    by (auto split: option.splits simp del: hstep.simps)
  from Cons.prems(1) s have "hinv r st1" by (rule hinv_hstep)
  then show ?case using rest by (rule Cons.IH)
qed

lemma hinv_hrun: "hrun r evs (M r) = Some st \<Longrightarrow> hinv r st"
  using hinv_M by (rule hinv_hrun_from)


subsection \<open>What the invariant says about the wire and the result\<close>

lemma P_set: "set (P xs ys) = set xs - set ys"
  by (auto simp: P_def)

lemma refs_for_tag:
  assumes "RequestType r = Update \<longrightarrow> OldResourceProperties r \<noteq> None"
  shows "set (refs_for r addTagsToResource) =
     (case RequestType r of
        Create \<Rightarrow> set (Object_keys (imports_map (ResourceProperties r)))
      | Update \<Rightarrow> set (Object_keys (imports_map (ResourceProperties r)))
          - (case OldResourceProperties r of None \<Rightarrow> {} | Some old \<Rightarrow> set (Object_keys (imports_map old)))
      | Delete \<Rightarrow> {})"
  using assms by (cases "RequestType r") (auto simp: refs_for_def P_set)

lemma refs_for_untag:
  assumes "RequestType r = Update \<longrightarrow> OldResourceProperties r \<noteq> None"
  shows "set (refs_for r removeTagsFromResource) =
     (case RequestType r of
        Create \<Rightarrow> {}
      | Update \<Rightarrow> (case OldResourceProperties r of None \<Rightarrow> {} | Some old \<Rightarrow> set (Object_keys (imports_map old)))
          - set (Object_keys (imports_map (ResourceProperties r)))
      | Delete \<Rightarrow> set (Object_keys (imports_map (ResourceProperties r))))"
  using assms by (cases "RequestType r") (auto simp: refs_for_def P_set)

lemma calls_current_subset:
  assumes "job_inv (length e) l" "wire_inv r a e l tr"
  shows "set (calls_of a tr) \<subseteq> (\<lambda>s. (s, tag_key r)) ` set e"
proof -
  from assms(2) have c: "calls_of a tr = map (\<lambda>j. (e ! j, tag_key r)) (admitted l)"
    by (simp add: wire_inv_def)
  from job_inv_bounds(1)[OF assms(1)] show ?thesis unfolding c by auto
qed

lemma calls_current_all:
  assumes "job_inv (length e) l" "wire_inv r a e l tr" "length (futures l) = length e"
  shows "set (calls_of a tr) = (\<lambda>s. (s, tag_key r)) ` set e"
proof -
  from assms(2) have c: "calls_of a tr = map (\<lambda>j. (e ! j, tag_key r)) (admitted l)"
    by (simp add: wire_inv_def)
  from job_inv_all_settled[OF assms(1,3)] have "mset (admitted l) = mset [0..<length e]" by simp
  then have "mset (calls_of a tr) = mset (map (\<lambda>s. (s, tag_key r)) e)"
    unfolding c by (rule map_nth_upt_mset)
  then have "set (calls_of a tr) = set (map (\<lambda>s. (s, tag_key r)) e)" by (rule mset_eq_setD)
  then show ?thesis by simp
qed

lemma calls_other:
  assumes "other_inv r a tr" "b \<noteq> a"
  shows "set (calls_of b tr) = (\<lambda>s. (s, tag_key r)) ` set (if a = addTagsToResource then refs_for r b else [])"
proof (cases a)
  case addTagsToResource
  with assms have b: "b = removeTagsFromResource" by (cases b) simp_all
  from assms(1) addTagsToResource have "untag_done r tr" by (simp add: other_inv_def)
  then have "mset (calls_of removeTagsFromResource tr)
      = mset (map (\<lambda>s. (s, tag_key r)) (refs_for r removeTagsFromResource))"
    by (simp add: untag_done_def)
  then have "set (calls_of removeTagsFromResource tr)
      = set (map (\<lambda>s. (s, tag_key r)) (refs_for r removeTagsFromResource))"
    by (rule mset_eq_setD)
  with b addTagsToResource show ?thesis by simp
next
  case removeTagsFromResource
  with assms have b: "b = addTagsToResource" by (cases b) simp_all
  with assms(1) removeTagsFromResource show ?thesis by (simp add: other_inv_def)
qed

lemma hinv_calls_subset:
  assumes "hinv r st"
  shows "set (calls_of b (wire st)) \<subseteq> (\<lambda>s. (s, tag_key r)) ` set (refs_for r b)"
proof (cases "fanout st")
  case None
  with assms show ?thesis by (simp add: hinv_def)
next
  case (Some x)
  then obtain a e l where f: "fanout st = Some (a, e, l)" by (cases x) auto
  note d = hinvD[OF assms f]
  show ?thesis
  proof (cases "b = a")
    case True
    with calls_current_subset[OF d(3) d(6)] d(4) show ?thesis by simp
  next
    case False
    from calls_other[OF d(7) False] show ?thesis by (auto split: if_splits)
  qed
qed

lemma hinv_calls_all:
  assumes "hinv r st" "result st = Some (Inr v)"
  shows "set (calls_of b (wire st)) = (\<lambda>s. (s, tag_key r)) ` set (refs_for r b)"
proof (cases "fanout st")
  case None
  with assms show ?thesis by (simp add: hinv_def)
next
  case (Some x)
  then obtain a e l where f: "fanout st = Some (a, e, l)" by (cases x) auto
  note d = hinvD[OF assms(1) f]
  from d(8) assms(2) have len: "length (futures l) = length e"
    and fin: "a = addTagsToResource \<or> RequestType r = Delete"
    by (simp_all add: result_ok_def)
  show ?thesis
  proof (cases "b = a")
    case True
    with calls_current_all[OF d(3) d(6) len] d(4) show ?thesis by simp
  next
    case False
    show ?thesis
    proof (cases a)
      case addTagsToResource
      with calls_other[OF d(7) False] show ?thesis by simp
    next
      case removeTagsFromResource
      with fin have del: "RequestType r = Delete" by simp
      from removeTagsFromResource False have "b = addTagsToResource" by (cases b) simp_all
      with del have "refs_for r b = []" by (simp add: refs_for_def)
      with calls_other[OF d(7) False] removeTagsFromResource show ?thesis by simp
    qed
  qed
qed

lemma hinv_update_old:
  assumes "hinv r st" "wire st \<noteq> [] \<or> (\<exists>v. result st = Some (Inr v))"
  shows "RequestType r = Update \<longrightarrow> OldResourceProperties r \<noteq> None"
proof (cases "fanout st")
  case None
  with assms show ?thesis by (auto simp: hinv_def)
next
  case (Some x)
  then obtain a e l where f: "fanout st = Some (a, e, l)" by (cases x) auto
  from hinvD(5)[OF assms(1) f] show ?thesis by (simp add: phase_ok_def)
qed

lemma replies_rejected:
  assumes "wire_inv r a e l tr" "(j, Rejected err) \<in> set (futures l)"
  shows "\<exists>s n t. (s, Thrown n t) \<in> set (replies_of a tr) \<and> outcome_of a s (Thrown n t) = Rejected err"
proof -
  from assms(1) have rp: "map (\<lambda>(s, rep). (s, outcome_of a s rep)) (replies_of a tr)
      = map (\<lambda>(j, out). (e ! j, out)) (futures l)"
    by (simp add: wire_inv_def)
  from assms(2) have "(e ! j, Rejected err) \<in> set (map (\<lambda>(j, out). (e ! j, out)) (futures l))"
    by force
  then have "(e ! j, Rejected err) \<in> set (map (\<lambda>(s, rep). (s, outcome_of a s rep)) (replies_of a tr))"
    by (simp only: rp)
  then obtain s rep where m: "(s, rep) \<in> set (replies_of a tr)" and o: "outcome_of a s rep = Rejected err"
    by auto
  from o have "rep \<noteq> Returned" by (cases a) auto
  then obtain n t where "rep = Thrown n t" by (cases rep) auto
  with m o show ?thesis by blast
qed

lemma futures_rejected:
  assumes "wire_inv r a e l tr" "(s, rep) \<in> set (replies_of a tr)" "outcome_of a s rep = Rejected err"
  shows "\<exists>j. (j, Rejected err) \<in> set (futures l)"
proof -
  from assms(1) have rp: "map (\<lambda>(s, rep). (s, outcome_of a s rep)) (replies_of a tr)
      = map (\<lambda>(j, out). (e ! j, out)) (futures l)"
    by (simp add: wire_inv_def)
  from assms(2,3) have "(s, Rejected err) \<in> set (map (\<lambda>(s, rep). (s, outcome_of a s rep)) (replies_of a tr))"
    by force
  then have "(s, Rejected err) \<in> set (map (\<lambda>(j, out). (e ! j, out)) (futures l))"
    by (simp only: rp)
  then show ?thesis by auto
qed

lemma outcome_of_Thrown:
  "outcome_of a s (Thrown n t) =
     (if a = removeTagsFromResource \<and> n = ''InvalidResourceId'' then Fulfilled
      else Rejected (Error ((if a = addTagsToResource then ''Error importing ''
                             else ''Error releasing import '') @ s @ '': '' @ t)))"
  by (cases a) simp_all

text \<open>A failure on the wire that the operation throws again rejects the current fan-out.\<close>

lemma hinv_failure:
  assumes inv: "hinv r st" and rep: "Reply a s (Thrown n t) \<in> set (wire st)"
    and ns: "\<not> (a = removeTagsFromResource \<and> n = ''InvalidResourceId'')"
  shows "\<exists>b e l. fanout st = Some (b, e, l) \<and> first_rejection (futures l) \<noteq> None"
proof (cases "fanout st")
  case None
  with inv rep show ?thesis by (simp add: hinv_def)
next
  case (Some x)
  then obtain b e l where f: "fanout st = Some (b, e, l)" by (cases x) auto
  note d = hinvD[OF inv f]
  from ns obtain err where o: "outcome_of a s (Thrown n t) = Rejected err"
    by (auto simp: outcome_of_Thrown)
  from rep have m: "(s, Thrown n t) \<in> set (replies_of a (wire st))"
    by (simp add: Reply_in_replies_of)
  have "a = b"
  proof (rule ccontr)
    assume ne: "a \<noteq> b"
    show False
    proof (cases b)
      case addTagsToResource
      with ne have a: "a = removeTagsFromResource" by (cases a) simp_all
      from d(7) addTagsToResource have "untag_done r (wire st)" by (simp add: other_inv_def)
      then have "\<forall>(s, rep) \<in> set (replies_of removeTagsFromResource (wire st)).
          untag_outcome s rep = Fulfilled"
        unfolding untag_done_def by blast
      moreover from m a have "(s, Thrown n t) \<in> set (replies_of removeTagsFromResource (wire st))"
        by simp
      ultimately have "case (s, Thrown n t) of (s, rep) \<Rightarrow> untag_outcome s rep = Fulfilled"
        by (rule bspec)
      then have "untag_outcome s (Thrown n t) = Fulfilled" by (simp only: prod.case)
      with o a show False by simp
    next
      case removeTagsFromResource
      with ne have a: "a = addTagsToResource" by (cases a) simp_all
      from d(7) removeTagsFromResource have "replies_of addTagsToResource (wire st) = []"
        by (simp add: other_inv_def)
      with m a show False by simp
    qed
  qed
  with d(6) m o obtain j where "(j, Rejected err) \<in> set (futures l)"
    by (auto dest: futures_rejected)
  then have "first_rejection (futures l) \<noteq> None"
    by (auto simp: first_rejection_None_iff)
  with f show ?thesis by blast
qed

text \<open>The wire only grows.\<close>

lemma wire_grows_step: "hstep r ev st = Some st' \<Longrightarrow> set (wire st) \<subseteq> set (wire st')"
proof (cases "fanout st")
  case None
  assume "hstep r ev st = Some st'"
  with None show ?thesis by simp
next
  case (Some x)
  assume s: "hstep r ev st = Some st'"
  from Some obtain a e l where f: "fanout st = Some (a, e, l)" by (cases x) auto
  from hstep_cases[OF s f] consider
      (lim) l' tr where "st' = st\<lparr>fanout := Some (a, e, l'), wire := wire st @ tr\<rparr>"
    | (rejected) err where "st' = st\<lparr>result := Some (Inl err)\<rparr>"
    | (fulfilled) "st' = M_resume r a st"
    by blast
  then show ?thesis
  proof cases
    case lim
    then show ?thesis by simp
  next
    case rejected
    then show ?thesis by simp
  next
    case fulfilled
    then show ?thesis
      by (auto simp: M_resume_def Let_def w_def fan_out_eq split: api.splits RequestType.splits option.splits)
  qed
qed

lemma wire_grows: "hrun r evs st = Some st' \<Longrightarrow> set (wire st) \<subseteq> set (wire st')"
proof (induction evs arbitrary: st)
  case Nil
  then show ?case by simp
next
  case (Cons ev evs)
  from Cons.prems obtain st1 where s: "hstep r ev st = Some st1" and rest: "hrun r evs st1 = Some st'"
    by (auto split: option.splits simp del: hstep.simps)
  from wire_grows_step[OF s] Cons.IH[OF rest] show ?case by blast
qed


section \<open>The claims about the handler\<close>

lemmas run_defs = M_def w_def x_def fan_out_eq Object_keys_def P_def admit_def dequeue_run_def
  run_start_def next_queued_def decrement_def new_calls_def Promise_all_def M_resume_def tag_key_def

text \<open>
  Claim C1, as the code has it. The handler takes the identifiers from
  \<open>Object.keys(imports)\<close>: a creation with the imports \<open>{a: "r1", b: "r2"}\<close>, run to its
  successful end, calls \<open>addTagsToResource\<close> with the resource identifiers \<open>a\<close> and \<open>b\<close>,
  and never with \<open>r1\<close> or \<open>r2\<close>.
\<close>

theorem handler_create_tags_keys_counterexample:
  "map_option wire
     (hrun create_ab [HTick, HTick, HReply 0 Returned, HReply 1 Returned, HResume] (M create_ab))
   = Some [Call addTagsToResource ''a'' ''aws-cdk:strong-ref:p'',
           Call addTagsToResource ''b'' ''aws-cdk:strong-ref:p'',
           Reply addTagsToResource ''a'' Returned,
           Reply addTagsToResource ''b'' Returned]
   \<and> map_option result
     (hrun create_ab [HTick, HTick, HReply 0 Returned, HReply 1 Returned, HResume] (M create_ab))
   = Some (Some (Inr (Some \<lparr>Data = [(''a'', ''r1''), (''b'', ''r2'')]\<rparr>)))
   \<and> map fst (calls_of addTagsToResource
        [Call addTagsToResource ''a'' ''aws-cdk:strong-ref:p'',
         Call addTagsToResource ''b'' ''aws-cdk:strong-ref:p'',
         Reply addTagsToResource ''a'' Returned,
         Reply addTagsToResource ''b'' Returned]) = [''a'', ''b'']
   \<and> ''r1'' \<notin> set [''a'', ''b''] \<and> ''r2'' \<notin> set [''a'', ''b'']"
  by (simp add: create_ab_def run_defs)

text \<open>
  Claim C1, amended: the items to tag and to untag are computed by set difference over the
  logical names, that is the keys of the import mappings, and every call of the remote API
  is issued with such a key as resource identifier and with the tag key of the request.
  In every state of every run, the tagging calls are for keys to tag and the untagging
  calls for keys to untag, where a creation tags the current keys, a deletion untags the
  current keys, and an update tags the current keys that are not prior keys and untags
  the prior keys that are not current keys. When the invocation has returned, exactly
  these keys have been called: a creation with \<open>{a: "r1", b: "r2"}\<close> tags exactly \<open>a\<close>
  and \<open>b\<close>.
\<close>

theorem handler_calls_by_key:
  assumes "hrun r evs (M r) = Some st"
  shows "(\<forall>a s k. Call a s k \<in> set (wire st) \<longrightarrow> k = tag_key r)
     \<and> fst ` set (calls_of addTagsToResource (wire st))
        \<subseteq> (case RequestType r of
             Create \<Rightarrow> set (Object_keys (imports_map (ResourceProperties r)))
           | Update \<Rightarrow> set (Object_keys (imports_map (ResourceProperties r)))
               - (case OldResourceProperties r of None \<Rightarrow> {}
                  | Some old \<Rightarrow> set (Object_keys (imports_map old)))
           | Delete \<Rightarrow> {})
     \<and> fst ` set (calls_of removeTagsFromResource (wire st))
        \<subseteq> (case RequestType r of
             Create \<Rightarrow> {}
           | Update \<Rightarrow> (case OldResourceProperties r of None \<Rightarrow> {}
                  | Some old \<Rightarrow> set (Object_keys (imports_map old)))
               - set (Object_keys (imports_map (ResourceProperties r)))
           | Delete \<Rightarrow> set (Object_keys (imports_map (ResourceProperties r))))
     \<and> (\<forall>v. result st = Some (Inr v) \<longrightarrow>
          fst ` set (calls_of addTagsToResource (wire st))
            = (case RequestType r of
                 Create \<Rightarrow> set (Object_keys (imports_map (ResourceProperties r)))
               | Update \<Rightarrow> set (Object_keys (imports_map (ResourceProperties r)))
                   - (case OldResourceProperties r of None \<Rightarrow> {}
                      | Some old \<Rightarrow> set (Object_keys (imports_map old)))
               | Delete \<Rightarrow> {})
          \<and> fst ` set (calls_of removeTagsFromResource (wire st))
            = (case RequestType r of
                 Create \<Rightarrow> {}
               | Update \<Rightarrow> (case OldResourceProperties r of None \<Rightarrow> {}
                      | Some old \<Rightarrow> set (Object_keys (imports_map old)))
                   - set (Object_keys (imports_map (ResourceProperties r)))
               | Delete \<Rightarrow> set (Object_keys (imports_map (ResourceProperties r)))))"
proof -
  from assms have inv: "hinv r st" by (rule hinv_hrun)
  have sub: "fst ` set (calls_of b (wire st)) \<subseteq> set (refs_for r b)" for b
    using hinv_calls_subset[OF inv, of b] by auto
  have key: "\<forall>a s k. Call a s k \<in> set (wire st) \<longrightarrow> k = tag_key r"
    using hinv_calls_subset[OF inv] by (auto simp: Call_in_calls_of)
  have tag: "fst ` set (calls_of addTagsToResource (wire st))
        \<subseteq> (case RequestType r of
             Create \<Rightarrow> set (Object_keys (imports_map (ResourceProperties r)))
           | Update \<Rightarrow> set (Object_keys (imports_map (ResourceProperties r)))
               - (case OldResourceProperties r of None \<Rightarrow> {}
                  | Some old \<Rightarrow> set (Object_keys (imports_map old)))
           | Delete \<Rightarrow> {})"
  proof (cases "RequestType r = Update \<and> OldResourceProperties r = None")
    case True
    then have "refs_for r addTagsToResource = []" by (simp add: refs_for_def)
    with sub[of addTagsToResource] show ?thesis by simp
  next
    case False
    then have "RequestType r = Update \<longrightarrow> OldResourceProperties r \<noteq> None" by simp
    from sub[of addTagsToResource] refs_for_tag[OF this] show ?thesis by simp
  qed
  have untag: "fst ` set (calls_of removeTagsFromResource (wire st))
        \<subseteq> (case RequestType r of
             Create \<Rightarrow> {}
           | Update \<Rightarrow> (case OldResourceProperties r of None \<Rightarrow> {}
                  | Some old \<Rightarrow> set (Object_keys (imports_map old)))
               - set (Object_keys (imports_map (ResourceProperties r)))
           | Delete \<Rightarrow> set (Object_keys (imports_map (ResourceProperties r))))"
  proof (cases "RequestType r = Update \<and> OldResourceProperties r = None")
    case True
    then have "refs_for r removeTagsFromResource = []" by (simp add: refs_for_def)
    with sub[of removeTagsFromResource] show ?thesis by simp
  next
    case False
    then have "RequestType r = Update \<longrightarrow> OldResourceProperties r \<noteq> None" by simp
    from sub[of removeTagsFromResource] refs_for_untag[OF this] show ?thesis by simp
  qed
  have fin: "\<forall>v. result st = Some (Inr v) \<longrightarrow>
          fst ` set (calls_of addTagsToResource (wire st))
            = (case RequestType r of
                 Create \<Rightarrow> set (Object_keys (imports_map (ResourceProperties r)))
               | Update \<Rightarrow> set (Object_keys (imports_map (ResourceProperties r)))
                   - (case OldResourceProperties r of None \<Rightarrow> {}
                      | Some old \<Rightarrow> set (Object_keys (imports_map old)))
               | Delete \<Rightarrow> {})
          \<and> fst ` set (calls_of removeTagsFromResource (wire st))
            = (case RequestType r of
                 Create \<Rightarrow> {}
               | Update \<Rightarrow> (case OldResourceProperties r of None \<Rightarrow> {}
                      | Some old \<Rightarrow> set (Object_keys (imports_map old)))
                   - set (Object_keys (imports_map (ResourceProperties r)))
               | Delete \<Rightarrow> set (Object_keys (imports_map (ResourceProperties r))))"
  proof (intro allI impI)
    fix v assume ok: "result st = Some (Inr v)"
    then have old: "RequestType r = Update \<longrightarrow> OldResourceProperties r \<noteq> None"
      using hinv_update_old[OF inv] by blast
    have "fst ` set (calls_of b (wire st)) = set (refs_for r b)" for b
      using hinv_calls_all[OF inv ok, of b] by (simp add: image_image)
    from this[of addTagsToResource] this[of removeTagsFromResource]
      refs_for_tag[OF old] refs_for_untag[OF old]
    show "fst ` set (calls_of addTagsToResource (wire st))
            = (case RequestType r of
                 Create \<Rightarrow> set (Object_keys (imports_map (ResourceProperties r)))
               | Update \<Rightarrow> set (Object_keys (imports_map (ResourceProperties r)))
                   - (case OldResourceProperties r of None \<Rightarrow> {}
                      | Some old \<Rightarrow> set (Object_keys (imports_map old)))
               | Delete \<Rightarrow> {})
          \<and> fst ` set (calls_of removeTagsFromResource (wire st))
            = (case RequestType r of
                 Create \<Rightarrow> {}
               | Update \<Rightarrow> (case OldResourceProperties r of None \<Rightarrow> {}
                      | Some old \<Rightarrow> set (Object_keys (imports_map old)))
                   - set (Object_keys (imports_map (ResourceProperties r)))
               | Delete \<Rightarrow> set (Object_keys (imports_map (ResourceProperties r))))"
      by simp
  qed
  from key tag untag fin show ?thesis by (intro conjI)
qed

theorem handler_calls_by_key_witness:
  "\<exists>st. hrun create_ab [HTick, HTick, HReply 0 Returned, HReply 1 Returned, HResume] (M create_ab)
        = Some st
     \<and> result st = Some (Inr (Some \<lparr>Data = [(''a'', ''r1''), (''b'', ''r2'')]\<rparr>))
     \<and> fst ` set (calls_of addTagsToResource (wire st)) = {''a'', ''b''}
     \<and> fst ` set (calls_of removeTagsFromResource (wire st)) = {}"
proof -
  have "\<exists>st. hrun create_ab [HTick, HTick, HReply 0 Returned, HReply 1 Returned, HResume] (M create_ab)
        = Some st
     \<and> result st = Some (Inr (Some \<lparr>Data = [(''a'', ''r1''), (''b'', ''r2'')]\<rparr>))"
    by (simp add: create_ab_def run_defs)
  then obtain st where
    run: "hrun create_ab [HTick, HTick, HReply 0 Returned, HReply 1 Returned, HResume] (M create_ab)
        = Some st"
    and res: "result st = Some (Inr (Some \<lparr>Data = [(''a'', ''r1''), (''b'', ''r2'')]\<rparr>))"
    by blast
  from handler_calls_by_key [OF run] res
  have "fst ` set (calls_of addTagsToResource (wire st)) = {''a'', ''b''}
     \<and> fst ` set (calls_of removeTagsFromResource (wire st)) = {}"
    by (simp add: create_ab_def Object_keys_def insert_commute)
  with run res show ?thesis by blast
qed


text \<open>
  Claim C2. In every run of an update, whenever a tagging call is on the wire, everything
  before it contains the complete untagging: each reference to untag (the prior keys that
  are not current keys) has been called and has been replied to, as often as it is listed,
  so that no untagging call is outstanding; and nothing after it is untagging traffic.
\<close>

theorem untag_settled_before_any_tag:
  assumes "hrun r evs (M r) = Some st" and "RequestType r = Update"
    and "OldResourceProperties r = Some old"
    and "wire st = pre @ Call addTagsToResource s k # post"
  shows "mset (map fst (calls_of removeTagsFromResource pre))
       = mset (P (Object_keys (imports_map old)) (Object_keys (imports_map (ResourceProperties r))))
     \<and> mset (map fst (replies_of removeTagsFromResource pre))
       = mset (P (Object_keys (imports_map old)) (Object_keys (imports_map (ResourceProperties r))))
     \<and> calls_of removeTagsFromResource post = []
     \<and> replies_of removeTagsFromResource post = []"
proof -
  from assms(1) have inv: "hinv r st" by (rule hinv_hrun)
  from assms(4) have c: "calls_of addTagsToResource (wire st) \<noteq> []" by simp
  from assms(4) have "wire st \<noteq> []" by simp
  with inv obtain a e l where f: "fanout st = Some (a, e, l)"
    by (cases "fanout st") (auto simp: hinv_def)
  note d = hinvD[OF inv f]
  have "a = addTagsToResource"
  proof (cases a)
    case removeTagsFromResource
    with d(7) c show ?thesis by (simp add: other_inv_def)
  qed
  with d(7) have "tag_after_untag r (wire st)" by (simp add: other_inv_def)
  with assms(4) have u: "untag_done r pre" and p: "calls_of removeTagsFromResource post = []"
    "replies_of removeTagsFromResource post = []"
    unfolding tag_after_untag_def by blast+
  from assms(2,3) have e: "refs_for r removeTagsFromResource
      = P (Object_keys (imports_map old)) (Object_keys (imports_map (ResourceProperties r)))"
    by (simp add: refs_for_def)
  from u have "mset (map fst (calls_of removeTagsFromResource pre))
      = mset (map fst (map (\<lambda>s. (s, tag_key r)) (refs_for r removeTagsFromResource)))"
    unfolding untag_done_def by (metis mset_map)
  then have 1: "mset (map fst (calls_of removeTagsFromResource pre))
      = mset (refs_for r removeTagsFromResource)"
    by (simp add: comp_def)
  from u have 2: "mset (map fst (replies_of removeTagsFromResource pre))
      = mset (refs_for r removeTagsFromResource)"
    unfolding untag_done_def by blast
  from 1 2 p show ?thesis unfolding e by (intro conjI)
qed

theorem untag_settled_before_any_tag_witness:
  "\<exists>st. hrun update_ab_ac [HTick, HReply 0 Returned, HResume, HTick] (M update_ab_ac) = Some st
     \<and> wire st = [Call removeTagsFromResource ''b'' ''aws-cdk:strong-ref:p'',
                  Reply removeTagsFromResource ''b'' Returned]
                 @ Call addTagsToResource ''c'' ''aws-cdk:strong-ref:p'' # []
     \<and> mset (map fst (replies_of removeTagsFromResource
           [Call removeTagsFromResource ''b'' ''aws-cdk:strong-ref:p'',
            Reply removeTagsFromResource ''b'' Returned]))
       = mset (P [''a'', ''b''] [''a'', ''c''])"
proof -
  have "\<exists>st. hrun update_ab_ac [HTick, HReply 0 Returned, HResume, HTick] (M update_ab_ac) = Some st
     \<and> wire st = [Call removeTagsFromResource ''b'' ''aws-cdk:strong-ref:p'',
                  Reply removeTagsFromResource ''b'' Returned]
                 @ Call addTagsToResource ''c'' ''aws-cdk:strong-ref:p'' # []"
    by (simp add: update_ab_ac_def run_defs)
  then obtain st where
    run: "hrun update_ab_ac [HTick, HReply 0 Returned, HResume, HTick] (M update_ab_ac) = Some st"
    and tr: "wire st = [Call removeTagsFromResource ''b'' ''aws-cdk:strong-ref:p'',
                  Reply removeTagsFromResource ''b'' Returned]
                 @ Call addTagsToResource ''c'' ''aws-cdk:strong-ref:p'' # []"
    by blast
  have u: "RequestType update_ab_ac = Update" by (simp add: update_ab_ac_def)
  have o: "OldResourceProperties update_ab_ac
      = Some \<lparr>imports_map = [(''a'', ''r1''), (''b'', ''r2'')], prefix = ''p'', region = ''us-east-1''\<rparr>"
    by (simp add: update_ab_ac_def)
  from untag_settled_before_any_tag [OF run u o tr]
  have "mset (map fst (replies_of removeTagsFromResource
           [Call removeTagsFromResource ''b'' ''aws-cdk:strong-ref:p'',
            Reply removeTagsFromResource ''b'' Returned]))
       = mset (P [''a'', ''b''] [''a'', ''c''])"
    by (simp add: update_ab_ac_def Object_keys_def)
  with run tr show ?thesis by blast
qed

text \<open>
  Claim C3. An untagging operation whose remote call fails with the name
  \<open>InvalidResourceId\<close>, and with no other name, is fulfilled; every other failure of an
  untagging or a tagging call rejects the operation with an error whose message names the
  reference. Whenever such a failure is on the wire of an invocation, the invocation has
  not returned and cannot return any more, the handler can resume and then rejects, and
  an invocation that has rejected did so with the wrapped error of a failed call on the
  wire.
\<close>

theorem failures_are_wrapped_and_reject:
  "untag_outcome s (Thrown n t) =
     (if n = ''InvalidResourceId'' then Fulfilled
      else Rejected (Error (''Error releasing import '' @ s @ '': '' @ t)))
   \<and> tag_outcome s (Thrown n t) = Rejected (Error (''Error importing '' @ s @ '': '' @ t))
   \<and> (\<forall>r evs st a.
        hrun r evs (M r) = Some st \<and> Reply a s (Thrown n t) \<in> set (wire st)
        \<and> \<not> (a = removeTagsFromResource \<and> n = ''InvalidResourceId'')
      \<longrightarrow> (\<forall>v. result st \<noteq> Some (Inr v))
        \<and> (\<forall>evs' st' v. hrun r evs' st = Some st' \<longrightarrow> result st' \<noteq> Some (Inr v))
        \<and> (result st = None
            \<longrightarrow> (\<exists>st' err. hstep r HResume st = Some st' \<and> result st' = Some (Inl err)))
        \<and> (\<forall>err. result st = Some (Inl err)
            \<longrightarrow> (\<exists>a' s' n' t'. Reply a' s' (Thrown n' t') \<in> set (wire st)
                  \<and> outcome_of a' s' (Thrown n' t') = Rejected err
                  \<and> err = Error ((if a' = addTagsToResource then ''Error importing ''
                                  else ''Error releasing import '') @ s' @ '': '' @ t'))))"
proof (intro conjI allI impI)
  show "untag_outcome s (Thrown n t) =
     (if n = ''InvalidResourceId'' then Fulfilled
      else Rejected (Error (''Error releasing import '' @ s @ '': '' @ t)))"
    by simp
  show "tag_outcome s (Thrown n t) = Rejected (Error (''Error importing '' @ s @ '': '' @ t))"
    by simp
next
  fix r evs st a v
  assume a: "hrun r evs (M r) = Some st \<and> Reply a s (Thrown n t) \<in> set (wire st)
      \<and> \<not> (a = removeTagsFromResource \<and> n = ''InvalidResourceId'')"
  then have inv: "hinv r st" by (auto intro: hinv_hrun)
  from hinv_failure[OF inv] a obtain b e l where f: "fanout st = Some (b, e, l)"
    and fr: "first_rejection (futures l) \<noteq> None" by blast
  from hinvD(8)[OF inv f] fr show "result st \<noteq> Some (Inr v)"
    by (auto simp: result_ok_def)
next
  fix r evs st a evs' st' v
  assume a: "hrun r evs (M r) = Some st \<and> Reply a s (Thrown n t) \<in> set (wire st)
      \<and> \<not> (a = removeTagsFromResource \<and> n = ''InvalidResourceId'')"
    and run': "hrun r evs' st = Some st'"
  from a have inv: "hinv r st" by (auto intro: hinv_hrun)
  from inv run' have inv': "hinv r st'" by (rule hinv_hrun_from)
  from run' have "set (wire st) \<subseteq> set (wire st')" by (rule wire_grows)
  with a have "Reply a s (Thrown n t) \<in> set (wire st')" by auto
  from hinv_failure[OF inv' this] a obtain b e l where f: "fanout st' = Some (b, e, l)"
    and fr: "first_rejection (futures l) \<noteq> None" by blast
  from hinvD(8)[OF inv' f] fr show "result st' \<noteq> Some (Inr v)"
    by (auto simp: result_ok_def)
next
  fix r evs st a
  assume a: "hrun r evs (M r) = Some st \<and> Reply a s (Thrown n t) \<in> set (wire st)
      \<and> \<not> (a = removeTagsFromResource \<and> n = ''InvalidResourceId'')"
    and pending: "result st = None"
  then have inv: "hinv r st" by (auto intro: hinv_hrun)
  from hinv_failure[OF inv] a obtain b e l where f: "fanout st = Some (b, e, l)"
    and fr: "first_rejection (futures l) \<noteq> None" by blast
  from fr obtain err where "Promise_all (length e) l = AllRejected err"
    by (auto simp: Promise_all_cases)
  with f pending have "hstep r HResume st = Some (st\<lparr>result := Some (Inl err)\<rparr>)" by simp
  then show "\<exists>st' err. hstep r HResume st = Some st' \<and> result st' = Some (Inl err)"
    by (intro exI[of _ "st\<lparr>result := Some (Inl err)\<rparr>"] exI[of _ err]) simp
next
  fix r evs st a err
  assume a: "hrun r evs (M r) = Some st \<and> Reply a s (Thrown n t) \<in> set (wire st)
      \<and> \<not> (a = removeTagsFromResource \<and> n = ''InvalidResourceId'')"
    and rej: "result st = Some (Inl err)"
  then have inv: "hinv r st" by (auto intro: hinv_hrun)
  from hinv_failure[OF inv] a obtain b e l where f: "fanout st = Some (b, e, l)" by blast
  note d = hinvD[OF inv f]
  from d(8) rej have "first_rejection (futures l) = Some err" by (simp add: result_ok_def)
  then obtain j where "(j, Rejected err) \<in> set (futures l)" by (auto dest: first_rejection_Some)
  from replies_rejected[OF d(6) this] obtain s' n' t'
    where m: "(s', Thrown n' t') \<in> set (replies_of b (wire st))"
      and o: "outcome_of b s' (Thrown n' t') = Rejected err"
    by blast
  from o have e: "err = Error ((if b = addTagsToResource then ''Error importing ''
      else ''Error releasing import '') @ s' @ '': '' @ t')"
    by (auto simp: outcome_of_Thrown split: if_splits)
  from m have "Reply b s' (Thrown n' t') \<in> set (wire st)" by (simp add: Reply_in_replies_of)
  with o e show "\<exists>a' s' n' t'. Reply a' s' (Thrown n' t') \<in> set (wire st)
      \<and> outcome_of a' s' (Thrown n' t') = Rejected err
      \<and> err = Error ((if a' = addTagsToResource then ''Error importing ''
                      else ''Error releasing import '') @ s' @ '': '' @ t')"
    by blast
qed

theorem failures_are_wrapped_and_reject_witness:
  "(\<exists>st. hrun create_abc
          [HTick, HTick, HTick,
           HReply 1 (Thrown ''ThrottlingException'' ''ThrottlingException: Rate exceeded'')]
          (M create_abc) = Some st
      \<and> Reply addTagsToResource ''b''
          (Thrown ''ThrottlingException'' ''ThrottlingException: Rate exceeded'') \<in> set (wire st)
      \<and> result st = None
      \<and> (\<exists>st' err. hstep create_abc HResume st = Some st' \<and> result st' = Some (Inl err)))
   \<and> map_option result
       (hrun create_abc
          [HTick, HTick, HTick,
           HReply 1 (Thrown ''ThrottlingException'' ''ThrottlingException: Rate exceeded''),
           HResume]
          (M create_abc))
     = Some (Some (Inl (Error ''Error importing b: ThrottlingException: Rate exceeded'')))
   \<and> map_option result
       (hrun delete_a
          [HTick, HReply 0 (Thrown ''InvalidResourceId'' ''InvalidResourceId: gone''), HResume]
          (M delete_a))
     = Some (Some (Inr None))"
proof -
  let ?rep = "Thrown ''ThrottlingException'' ''ThrottlingException: Rate exceeded''"
  have "\<exists>st. hrun create_abc [HTick, HTick, HTick, HReply 1 ?rep] (M create_abc) = Some st
      \<and> Reply addTagsToResource ''b'' ?rep \<in> set (wire st) \<and> result st = None"
    by (simp add: create_abc_def run_defs)
  then obtain st where
    run: "hrun create_abc [HTick, HTick, HTick, HReply 1 ?rep] (M create_abc) = Some st"
    and rep: "Reply addTagsToResource ''b'' ?rep \<in> set (wire st)"
    and pending: "result st = None"
    by blast
  have "\<not> (addTagsToResource = removeTagsFromResource \<and> ''ThrottlingException'' = ''InvalidResourceId'')"
    by simp
  with failures_are_wrapped_and_reject
    [of "''b''" "''ThrottlingException''" "''ThrottlingException: Rate exceeded''"] run rep pending
  have 1: "\<exists>st' err. hstep create_abc HResume st = Some st' \<and> result st' = Some (Inl err)"
    by blast
  have 2: "map_option result
       (hrun create_abc [HTick, HTick, HTick, HReply 1 ?rep, HResume] (M create_abc))
     = Some (Some (Inl (Error ''Error importing b: ThrottlingException: Rate exceeded'')))"
    by (simp add: create_abc_def run_defs)
  have 3: "map_option result
       (hrun delete_a
          [HTick, HReply 0 (Thrown ''InvalidResourceId'' ''InvalidResourceId: gone''), HResume]
          (M delete_a))
     = Some (Some (Inr None))"
    by (simp add: delete_a_def run_defs)
  from run rep pending 1 2 3 show ?thesis by blast
qed

text \<open>
  Claim C4. Whenever the handler has returned, the value it returned is determined by the
  type of the request: \<open>{Data: imports}\<close> with the current imports of the request for a
  creation and for an update, and nothing (\<open>undefined\<close>) for a deletion.
\<close>

theorem handler_return_value:
  assumes "hrun r evs (M r) = Some st" and "result st = Some (Inr v)"
  shows "v = (case RequestType r of
                Create \<Rightarrow> Some \<lparr>Data = imports_map (ResourceProperties r)\<rparr>
              | Update \<Rightarrow> Some \<lparr>Data = imports_map (ResourceProperties r)\<rparr>
              | Delete \<Rightarrow> None)"
proof -
  from assms(1) have inv: "hinv r st" by (rule hinv_hrun)
  with assms(2) obtain a e l where f: "fanout st = Some (a, e, l)"
    by (cases "fanout st") (auto simp: hinv_def)
  from hinvD(8)[OF inv f] assms(2)
  have "v = (if RequestType r = Delete then None
             else Some \<lparr>Data = imports_map (ResourceProperties r)\<rparr>)"
    by (simp add: result_ok_def)
  then show ?thesis by (cases "RequestType r") simp_all
qed

theorem handler_return_value_witness:
  "(\<exists>st. hrun create_ab [HTick, HTick, HReply 0 Returned, HReply 1 Returned, HResume] (M create_ab)
         = Some st
      \<and> result st = Some (Inr (Some \<lparr>Data = [(''a'', ''r1''), (''b'', ''r2'')]\<rparr>)))
   \<and> (\<exists>st. hrun update_ab_ac
           [HTick, HReply 0 Returned, HResume, HTick, HReply 0 Returned, HResume] (M update_ab_ac)
         = Some st
      \<and> result st = Some (Inr (Some \<lparr>Data = [(''a'', ''r1''), (''c'', ''r3'')]\<rparr>)))
   \<and> (\<exists>st. hrun delete_a [HTick, HReply 0 Returned, HResume] (M delete_a) = Some st
      \<and> result st = Some (Inr None))"
proof -
  have "\<exists>st v. hrun create_ab [HTick, HTick, HReply 0 Returned, HReply 1 Returned, HResume] (M create_ab)
         = Some st \<and> result st = Some (Inr v)"
    by (simp add: create_ab_def run_defs)
  then obtain st1 v1 where
    r1: "hrun create_ab [HTick, HTick, HReply 0 Returned, HReply 1 Returned, HResume] (M create_ab)
         = Some st1" and v1: "result st1 = Some (Inr v1)"
    by blast
  from handler_return_value [OF r1 v1]
  have "v1 = Some \<lparr>Data = [(''a'', ''r1''), (''b'', ''r2'')]\<rparr>" by (simp add: create_ab_def)
  with r1 v1 have 1: "\<exists>st. hrun create_ab [HTick, HTick, HReply 0 Returned, HReply 1 Returned, HResume] (M create_ab)
         = Some st
      \<and> result st = Some (Inr (Some \<lparr>Data = [(''a'', ''r1''), (''b'', ''r2'')]\<rparr>))"
    by blast
  have "\<exists>st v. hrun update_ab_ac
           [HTick, HReply 0 Returned, HResume, HTick, HReply 0 Returned, HResume] (M update_ab_ac)
         = Some st \<and> result st = Some (Inr v)"
    by (simp add: update_ab_ac_def run_defs)
  then obtain st2 v2 where
    r2: "hrun update_ab_ac
           [HTick, HReply 0 Returned, HResume, HTick, HReply 0 Returned, HResume] (M update_ab_ac)
         = Some st2" and v2: "result st2 = Some (Inr v2)"
    by blast
  from handler_return_value [OF r2 v2]
  have "v2 = Some \<lparr>Data = [(''a'', ''r1''), (''c'', ''r3'')]\<rparr>" by (simp add: update_ab_ac_def)
  with r2 v2 have 2: "\<exists>st. hrun update_ab_ac
           [HTick, HReply 0 Returned, HResume, HTick, HReply 0 Returned, HResume] (M update_ab_ac)
         = Some st
      \<and> result st = Some (Inr (Some \<lparr>Data = [(''a'', ''r1''), (''c'', ''r3'')]\<rparr>))"
    by blast
  have "\<exists>st v. hrun delete_a [HTick, HReply 0 Returned, HResume] (M delete_a) = Some st
      \<and> result st = Some (Inr v)"
    by (simp add: delete_a_def run_defs)
  then obtain st3 v3 where
    r3: "hrun delete_a [HTick, HReply 0 Returned, HResume] (M delete_a) = Some st3"
    and v3: "result st3 = Some (Inr v3)"
    by blast
  from handler_return_value [OF r3 v3] have "v3 = None" by (simp add: delete_a_def)
  with r3 v3 have 3: "\<exists>st. hrun delete_a [HTick, HReply 0 Returned, HResume] (M delete_a) = Some st
      \<and> result st = Some (Inr None)"
    by blast
  from 1 2 3 show ?thesis by (intro conjI)
qed

text \<open>
  Claim C5. For a limiter that \<open>z\<close> has constructed with the value \<open>r\<close>, in every state of
  every run the counter is at least 0 and, when \<open>r\<close> is the integer \<open>k\<close>, at most \<open>k\<close>
  (with \<open>Infinity\<close> there is no bound to keep); this also holds between the \<open>t--\<close> of \<open>o\<close>
  and the start of the next operation. In every state of every invocation of the handler
  the limiter of the current fan-out has the limit 10, its counter is between 0 and 10,
  and the calls on the wire that have no reply yet are the operations in flight of that
  limiter, at most 10.
\<close>

theorem activeCount_within_limit:
  "(\<forall>r l0 evs s. (z r :: js_error + 'r limiter) = Inr l0 \<and> lrun evs l0 = Some s
      \<longrightarrow> 0 \<le> activeCount s
        \<and> (\<forall>k::int. r = JNumber (Fin (of_int k)) \<longrightarrow> activeCount s \<le> k)
        \<and> (awaiting s \<noteq> [] \<longrightarrow> 0 \<le> activeCount (decrement s)))
   \<and> (\<forall>r evs st a e l. hrun r evs (M r) = Some st \<and> fanout st = Some (a, e, l)
      \<longrightarrow> concurrency l = JNumber (Fin 10)
        \<and> 0 \<le> activeCount l \<and> activeCount l \<le> 10
        \<and> length (calls_of addTagsToResource (wire st))
            + length (calls_of removeTagsFromResource (wire st))
          = length (replies_of addTagsToResource (wire st))
            + length (replies_of removeTagsFromResource (wire st)) + length (inflight l)
        \<and> length (inflight l) \<le> 10)"
proof (intro conjI allI impI)
  fix r and l0 s :: "'r limiter" and evs
  assume a: "z r = Inr l0 \<and> lrun evs l0 = Some s"
  then have "linv l0" by (auto intro: linv_z)
  with a have l: "linv s" and c: "concurrency s = concurrency l0"
    using linv_lrun[of l0 evs s] by simp_all
  from a have c0: "concurrency l0 = r" by (auto dest: z_Inr_fields)
  from l have t: "activeCount s = int (length (inflight s)) + int (length (awaiting s))"
    and n: "\<not> num_lt (ToNumber (concurrency s)) (Fin (of_int (activeCount s)))"
    unfolding linv_def by blast+
  from t show "0 \<le> activeCount s" by simp
  show "0 \<le> activeCount (decrement s)" if "awaiting s \<noteq> []"
  proof -
    from that have "1 \<le> int (length (awaiting s))" by (cases "awaiting s") simp_all
    moreover have "0 \<le> int (length (inflight s))" by simp
    ultimately have "1 \<le> activeCount s" unfolding t by linarith
    then show ?thesis by (simp add: decrement_def)
  qed
  show "activeCount s \<le> k" if "r = JNumber (Fin (of_int k))" for k :: int
    using n c c0 that by simp
next
  fix r evs st a e l
  assume a: "hrun r evs (M r) = Some st \<and> fanout st = Some (a, e, l)"
  then have inv: "hinv r st" and f: "fanout st = Some (a, e, l)" by (auto intro: hinv_hrun)
  note d = hinvD[OF inv f]
  from d(2) show "concurrency l = JNumber (Fin 10)" .
  from d(1) have t: "activeCount l = int (length (inflight l)) + int (length (awaiting l))"
    and n: "\<not> num_lt (ToNumber (concurrency l)) (Fin (of_int (activeCount l)))"
    unfolding linv_def by blast+
  from t show 0: "0 \<le> activeCount l" by simp
  from n d(2) show 10: "activeCount l \<le> 10" by simp
  from t 10 show "length (inflight l) \<le> 10" by simp
  from d(6) have "length (calls_of a (wire st)) = length (admitted l)"
    by (simp add: wire_inv_def)
  moreover from d(6) have "length (map (\<lambda>(s, rep). (s, outcome_of a s rep)) (replies_of a (wire st)))
      = length (map (\<lambda>(j, out). (e ! j, out)) (futures l))"
    by (simp only: wire_inv_def)
  then have "length (replies_of a (wire st)) = length (futures l)" by simp
  moreover from d(3) have "mset (inflight l) + mset (map fst (futures l)) = mset (admitted l)"
    by (simp add: job_inv_def)
  then have "length (inflight l) + length (futures l) = length (admitted l)"
    by (metis length_append length_map mset_append size_mset)
  ultimately have cur: "length (calls_of a (wire st)) = length (replies_of a (wire st)) + length (inflight l)"
    by simp
  show "length (calls_of addTagsToResource (wire st))
        + length (calls_of removeTagsFromResource (wire st))
      = length (replies_of addTagsToResource (wire st))
        + length (replies_of removeTagsFromResource (wire st)) + length (inflight l)"
  proof (cases a)
    case addTagsToResource
    with d(7) have u: "untag_done r (wire st)" by (simp add: other_inv_def)
    then have "size (mset (calls_of removeTagsFromResource (wire st)))
        = size (mset (map (\<lambda>s. (s, tag_key r)) (refs_for r removeTagsFromResource)))"
      unfolding untag_done_def by metis
    moreover from u have "size (mset (map fst (replies_of removeTagsFromResource (wire st))))
        = size (mset (refs_for r removeTagsFromResource))"
      unfolding untag_done_def by metis
    ultimately have "length (calls_of removeTagsFromResource (wire st))
        = length (replies_of removeTagsFromResource (wire st))"
      by simp
    with cur addTagsToResource show ?thesis by simp
  next
    case removeTagsFromResource
    with d(7) have "calls_of addTagsToResource (wire st) = []"
      "replies_of addTagsToResource (wire st) = []"
      by (simp_all add: other_inv_def)
    with cur removeTagsFromResource show ?thesis by simp
  qed
qed

theorem activeCount_within_limit_witness:
  "(\<exists>(l0 :: unit limiter) s.
       z (JNumber (Fin 2)) = Inr l0
     \<and> lrun [Submit, Submit, Submit, Tick, Tick, Tick] l0 = Some s
     \<and> queue s = [2] \<and> inflight s = [0, 1]
     \<and> 0 \<le> activeCount s \<and> activeCount s \<le> 2)
   \<and> (\<exists>st a e l.
       hrun create_abc [HTick, HTick, HReply 0 Returned] (M create_abc) = Some st
     \<and> fanout st = Some (a, e, l)
     \<and> inflight l = [1] \<and> awaiting l = [0]
     \<and> concurrency l = JNumber (Fin 10) \<and> 0 \<le> activeCount l \<and> activeCount l \<le> 10
     \<and> length (inflight l) \<le> 10)"
proof -
  have "\<exists>(l0 :: unit limiter) s.
       z (JNumber (Fin 2)) = Inr l0
     \<and> lrun [Submit, Submit, Submit, Tick, Tick, Tick] l0 = Some s
     \<and> queue s = [2] \<and> inflight s = [0, 1]"
    by (simp add: z_def num_gt_def generator_def admit_def dequeue_run_def run_start_def)
  then obtain l0 s :: "unit limiter" where
    z: "z (JNumber (Fin 2)) = Inr l0"
    and run: "lrun [Submit, Submit, Submit, Tick, Tick, Tick] l0 = Some s"
    and q: "queue s = [2]" "inflight s = [0, 1]"
    by blast
  have k: "JNumber (Fin 2) = JNumber (Fin (of_int 2))" by simp
  from activeCount_within_limit [where ?'r = unit] z run
  have "0 \<le> activeCount s \<and> (\<forall>k::int. JNumber (Fin 2) = JNumber (Fin (of_int k)) \<longrightarrow> activeCount s \<le> k)"
    by blast
  with k have b: "0 \<le> activeCount s \<and> activeCount s \<le> 2" by blast
  have "\<exists>st a e l.
       hrun create_abc [HTick, HTick, HReply 0 Returned] (M create_abc) = Some st
     \<and> fanout st = Some (a, e, l) \<and> inflight l = [1] \<and> awaiting l = [0]"
    by (simp add: create_abc_def run_defs)
  then obtain st a e l where
    hr: "hrun create_abc [HTick, HTick, HReply 0 Returned] (M create_abc) = Some st"
    and f: "fanout st = Some (a, e, l)" and i: "inflight l = [1]" "awaiting l = [0]"
    by blast
  from activeCount_within_limit [where ?'r = unit] hr f
  have h: "concurrency l = JNumber (Fin 10) \<and> 0 \<le> activeCount l \<and> activeCount l \<le> 10
      \<and> length (inflight l) \<le> 10"
    by blast
  from z run q b hr f i h show ?thesis by blast
qed


section \<open>The validations of the two constructors\<close>


lemma validatePatternSupported_error:
  "validatePatternSupported p ps = Some e \<Longrightarrow> e \<noteq> numberOfWorkers_error"
  by (auto simp: validatePatternSupported_def numberOfWorkers_error_def split: if_splits)





text \<open>
  Claim C10, as the code has it. The claim as stated fails where an earlier validation of
  the constructor throws: with a weight of 300 and a region, two routing policies are
  defined and the constructor throws the error of the weight instead.
\<close>

theorem RecordSet_only_one_policy_counterexample:
  "\<not> (RecordSet_constructor None
         (\<lparr>target = \<lparr>target_values = Some [''1.2.3.4''], aliasTarget = None\<rparr>,
           weight = Some (Fin 300), setIdentifier = None, geoLocation = None,
           region = Some ''us-east-1'', multiValueAnswer = None, cidrRoutingConfig = None\<rparr>
          :: (unit, unit, unit) RecordSetProps) = Inl OnlyOneRoutingPolicy
       \<longleftrightarrow> 1 < nonSimpleRoutingPolicies
            (\<lparr>target = \<lparr>target_values = Some [''1.2.3.4''], aliasTarget = None\<rparr>,
              weight = Some (Fin 300), setIdentifier = None, geoLocation = None,
              region = Some ''us-east-1'', multiValueAnswer = None, cidrRoutingConfig = None\<rparr>
             :: (unit, unit, unit) RecordSetProps))"
  by (simp add: RecordSet_constructor_def check_weight_def num_gt_def nonSimpleRoutingPolicies_def)

text \<open>
  Claim C10, amended: the constructor throws \<open>Only one of region, weight,
  multiValueAnswer, cidrRoutingConfig or geoLocation can be defined\<close> if and only if the
  constructor of the base class returns, none of the four validations before the check
  throws (the range of the weight, the length of the set identifier, the set identifier
  without a routing policy, the multi-value answer with an alias target), and strictly more
  than one of \<open>geoLocation\<close>, \<open>region\<close>, \<open>weight\<close>, \<open>multiValueAnswer\<close> and
  \<open>cidrRoutingConfig\<close> is defined; with at most one of them defined the constructor never
  throws this error.
\<close>

theorem RecordSet_only_one_policy:
  "(RecordSet_constructor super props = Inl OnlyOneRoutingPolicy
      \<longleftrightarrow> super = None
          \<and> check_weight props = None
          \<and> check_setIdentifier_length props = None
          \<and> check_setIdentifier_routing props = None
          \<and> check_multiValueAnswer props = None
          \<and> 1 < (of_bool (geoLocation props \<noteq> None) + of_bool (region props \<noteq> None)
                + of_bool (weight props \<noteq> None) + of_bool (multiValueAnswer props \<noteq> None)
                + of_bool (cidrRoutingConfig props \<noteq> None) :: nat))
   \<and> ((of_bool (geoLocation props \<noteq> None) + of_bool (region props \<noteq> None)
         + of_bool (weight props \<noteq> None) + of_bool (multiValueAnswer props \<noteq> None)
         + of_bool (cidrRoutingConfig props \<noteq> None) :: nat) \<le> 1
      \<longrightarrow> RecordSet_constructor super props \<noteq> Inl OnlyOneRoutingPolicy)"
proof -
  have count: "nonSimpleRoutingPolicies props =
      of_bool (geoLocation props \<noteq> None) + of_bool (region props \<noteq> None)
      + of_bool (weight props \<noteq> None) + of_bool (multiValueAnswer props \<noteq> None)
      + of_bool (cidrRoutingConfig props \<noteq> None)"
    by (simp add: nonSimpleRoutingPolicies_def)
  have w: "check_weight props \<noteq> Some OnlyOneRoutingPolicy"
    by (auto simp: check_weight_def split: option.splits if_splits)
  have s: "check_setIdentifier_length props \<noteq> Some OnlyOneRoutingPolicy"
    by (auto simp: check_setIdentifier_length_def split: option.splits if_splits)
  have r: "check_setIdentifier_routing props \<noteq> Some OnlyOneRoutingPolicy"
    by (auto simp: check_setIdentifier_routing_def split: if_splits)
  have m: "check_multiValueAnswer props \<noteq> Some OnlyOneRoutingPolicy"
    by (auto simp: check_multiValueAnswer_def split: if_splits)
  have main: "RecordSet_constructor super props = Inl OnlyOneRoutingPolicy
      \<longleftrightarrow> super = None \<and> check_weight props = None \<and> check_setIdentifier_length props = None
          \<and> check_setIdentifier_routing props = None \<and> check_multiValueAnswer props = None
          \<and> 1 < nonSimpleRoutingPolicies props"
    using w s r m by (auto simp: RecordSet_constructor_def split: option.splits)
  show ?thesis unfolding main count by auto
qed

theorem RecordSet_only_one_policy_witness:
  "RecordSet_constructor None
     (\<lparr>target = \<lparr>target_values = Some [''1.2.3.4''], aliasTarget = None\<rparr>,
       weight = Some (Fin 20), setIdentifier = None, geoLocation = None,
       region = Some ''us-east-1'', multiValueAnswer = None, cidrRoutingConfig = None\<rparr>
      :: (unit, unit, unit) RecordSetProps) = Inl OnlyOneRoutingPolicy
   \<and> RecordSet_constructor None
     (\<lparr>target = \<lparr>target_values = Some [''1.2.3.4''], aliasTarget = None\<rparr>,
       weight = Some (Fin 20), setIdentifier = Some ''id'', geoLocation = None,
       region = None, multiValueAnswer = None, cidrRoutingConfig = None\<rparr>
      :: (unit, unit, unit) RecordSetProps) \<noteq> Inl OnlyOneRoutingPolicy"
  using RecordSet_only_one_policy [of None
      "\<lparr>target = \<lparr>target_values = Some [''1.2.3.4''], aliasTarget = None\<rparr>,
        weight = Some (Fin 20), setIdentifier = None, geoLocation = None,
        region = Some ''us-east-1'', multiValueAnswer = None, cidrRoutingConfig = None\<rparr>
       :: (unit, unit, unit) RecordSetProps"]
    RecordSet_only_one_policy [of None
      "\<lparr>target = \<lparr>target_values = Some [''1.2.3.4''], aliasTarget = None\<rparr>,
        weight = Some (Fin 20), setIdentifier = Some ''id'', geoLocation = None,
        region = None, multiValueAnswer = None, cidrRoutingConfig = None\<rparr>
       :: (unit, unit, unit) RecordSetProps"]
  by (simp add: check_weight_def check_setIdentifier_length_def check_setIdentifier_routing_def
      check_multiValueAnswer_def num_gt_def truthy_string_def truthy_boolean_def truthy_object_def)

end
